theory Spec2Isabelle
  imports Main "HOL-Library.Word"
begin

unbundle bit_operations_syntax

section \<open>Memory: a flat, byte-addressed store\<close>

text \<open>
  The allocator of \<^verbatim>\<open>my_malloc.cpp\<close> keeps its free list inside the arena it manages and
  reinterprets the same bytes as \<^verbatim>\<open>node_t\<close> or as \<^verbatim>\<open>header_t\<close>. The model therefore has an
  explicit store: a total map from 64-bit addresses to bytes. \<^verbatim>\<open>size_t\<close> and pointers are
  64-bit words (\<^verbatim>\<open>NULL\<close> is 0); a field access reads or writes eight consecutive bytes,
  least significant byte first, and address arithmetic wraps modulo \<open>2 ^ 64\<close>. Every address
  can be read and written: an access outside the arena, where the C program has no defined
  behaviour, reads and writes this store like any other.
\<close>

type_synonym addr = "64 word"

type_synonym memory = "addr \<Rightarrow> 8 word"

definition store64 :: "memory \<Rightarrow> addr \<Rightarrow> 64 word \<Rightarrow> memory" where
  "store64 m a v = (\<lambda>x. if x - a < 8 then ucast (drop_bit (8 * unat (x - a)) v) else m x)"

fun load_bytes :: "memory \<Rightarrow> addr \<Rightarrow> nat \<Rightarrow> 64 word" where
  "load_bytes m a 0 = 0"
| "load_bytes m a (Suc n) = ucast (m a) OR push_bit 8 (load_bytes m (a + 1) n)"

definition load64 :: "memory \<Rightarrow> addr \<Rightarrow> 64 word" where
  "load64 m a = load_bytes m a 8"

section \<open>The declarations of \<^verbatim>\<open>my_malloc.h\<close>\<close>

text \<open>
  Modelled from the spec: the header \<^verbatim>\<open>my_malloc.h\<close> (the types \<^verbatim>\<open>node_t\<close> and \<^verbatim>\<open>header_t\<close>, the
  macros \<^verbatim>\<open>HEAP_SIZE\<close> and \<^verbatim>\<open>MAGIC\<close>) is not among the sources. The spec gives a free block
  descriptor the attributes \<open>size\<close> and \<open>next\<close> and an allocated block header the attributes
  \<open>size\<close> and \<open>tag\<close>, in this order. Both structures are laid out as two consecutive 64-bit
  fields: \<open>size\<close> at offset 0, and \<open>next\<close> (resp. the tag \<open>magic\<close>) at offset 8. The two
  \<^verbatim>\<open>sizeof\<close> values, the arena capacity, the sentinel and the address that \<^verbatim>\<open>mmap\<close> hands out
  are parameters.
\<close>

record layout =
  HEAP_SIZE :: "64 word"
  MAGIC :: "64 word"
  sizeof_node :: "64 word"
  sizeof_header :: "64 word"
  mmap_addr :: addr

definition get_size :: "memory \<Rightarrow> addr \<Rightarrow> 64 word" where
  "get_size m p = load64 m p"

definition get_next :: "memory \<Rightarrow> addr \<Rightarrow> addr" where
  "get_next m p = load64 m (p + 8)"

definition get_magic :: "memory \<Rightarrow> addr \<Rightarrow> 64 word" where
  "get_magic m p = load64 m (p + 8)"

definition set_size :: "memory \<Rightarrow> addr \<Rightarrow> 64 word \<Rightarrow> memory" where
  "set_size m p v = store64 m p v"

definition set_next :: "memory \<Rightarrow> addr \<Rightarrow> addr \<Rightarrow> memory" where
  "set_next m p v = store64 m (p + 8) v"

definition set_magic :: "memory \<Rightarrow> addr \<Rightarrow> 64 word \<Rightarrow> memory" where
  "set_magic m p v = store64 m (p + 8) v"

section \<open>The allocator state\<close>

text \<open>
  The global \<^verbatim>\<open>head\<close>, the memory, and the trace of the calls made to the operating system.
  A failed \<^verbatim>\<open>assert\<close> ends the run: it is the error value, carrying the state at that point.
  A loop that follows \<open>next\<close> pointers need not end (the list in memory can be cyclic): such
  a function returns an option, and \<open>None\<close> is the run that does not return. \<^verbatim>\<open>mmap\<close> is
  taken to succeed, with fresh zeroed memory at the address of the layout.
\<close>

datatype os_call = Mmap addr | Munmap addr

record heap_state =
  head :: addr
  mem :: memory
  os :: "os_call list"

datatype error = AssertionFailed

type_synonym 'a result = "(error \<times> heap_state) + 'a"

subsection \<open>\<^verbatim>\<open>heap\<close>, \<^verbatim>\<open>reset_heap\<close>, \<^verbatim>\<open>free_list\<close>\<close>

definition mmap_fresh :: "memory \<Rightarrow> addr \<Rightarrow> 64 word \<Rightarrow> memory" where
  "mmap_fresh m base len = (\<lambda>x. if x - base < len then 0 else m x)"

definition heap :: "layout \<Rightarrow> heap_state \<Rightarrow> addr \<times> heap_state" where
  "heap L s =
     (if head s = 0 then
        let hd0 = mmap_addr L;
            m0 = mmap_fresh (mem s) hd0 (HEAP_SIZE L);
            m1 = set_size m0 hd0 (HEAP_SIZE L - sizeof_node L);
            m2 = set_next m1 hd0 0;
            s' = s\<lparr>head := hd0, mem := m2, os := os s @ [Mmap hd0]\<rparr>
        in (head s', s')
      else (head s, s))"

definition reset_heap :: "layout \<Rightarrow> heap_state \<Rightarrow> heap_state" where
  "reset_heap L s =
     (if head s \<noteq> 0 then
        let s1 = s\<lparr>os := os s @ [Munmap (head s)]\<rparr>;
            s2 = s1\<lparr>head := 0\<rparr>
        in snd (heap L s2)
      else s)"

definition free_list :: "heap_state \<Rightarrow> addr \<times> heap_state" where
  "free_list s = (head s, s)"

subsection \<open>The counters and the printer\<close>

partial_function (option) available_loop :: "memory \<Rightarrow> addr \<Rightarrow> 64 word \<Rightarrow> 64 word option" where
  "available_loop m p n =
     (if p \<noteq> 0 then available_loop m (get_next m p) (n + get_size m p) else Some n)"

definition available_memory :: "layout \<Rightarrow> heap_state \<Rightarrow> (64 word \<times> heap_state) option" where
  "available_memory L s =
     (case heap L s of (p, s') \<Rightarrow>
        map_option (\<lambda>n. (n, s')) (available_loop (mem s') p 0))"

text \<open>\<^verbatim>\<open>count\<close> is an \<^verbatim>\<open>int\<close>: a 32-bit counter.\<close>

partial_function (option) count_loop :: "memory \<Rightarrow> addr \<Rightarrow> 32 word \<Rightarrow> 32 word option" where
  "count_loop m p count =
     (if p \<noteq> 0 then count_loop m (get_next m p) (count + 1) else Some count)"

definition number_of_free_nodes :: "layout \<Rightarrow> heap_state \<Rightarrow> (32 word \<times> heap_state) option" where
  "number_of_free_nodes L s =
     (case heap L s of (p, s') \<Rightarrow>
        map_option (\<lambda>n. (n, s')) (count_loop (mem s') p 0))"

definition digit_char :: "nat \<Rightarrow> char" where
  "digit_char d = ''0123456789'' ! d"

function show_nat :: "nat \<Rightarrow> string" where
  "show_nat n = (if n < 10 then [digit_char n] else show_nat (n div 10) @ [digit_char (n mod 10)])"
  by pat_completeness auto

termination
  by (relation "measure id") auto

text \<open>\<^verbatim>\<open>%zd\<close> prints the \<^verbatim>\<open>size_t\<close> as a signed number.\<close>

definition show_zd :: "64 word \<Rightarrow> string" where
  "show_zd w = (if sint w < 0 then ''-'' @ show_nat (nat (- sint w)) else show_nat (nat (sint w)))"

partial_function (option) print_loop :: "memory \<Rightarrow> addr \<Rightarrow> string \<Rightarrow> string option" where
  "print_loop m p out =
     (if p \<noteq> 0 then
        let out1 = out @ ''Free('' @ show_zd (get_size m p) @ '')'';
            p' = get_next m p;
            out2 = (if p' \<noteq> 0 then out1 @ ''->'' else out1)
        in print_loop m p' out2
      else Some out)"

definition print_free_list :: "layout \<Rightarrow> heap_state \<Rightarrow> (string \<times> heap_state) option" where
  "print_free_list L s =
     (case heap L s of (p, s') \<Rightarrow>
        map_option (\<lambda>out. (out @ [CHR 0x0A], s')) (print_loop (mem s') p []))"

subsection \<open>\<^verbatim>\<open>find_free\<close>\<close>

definition fits :: "layout \<Rightarrow> 64 word \<Rightarrow> 64 word \<Rightarrow> bool" where
  "fits L S R \<longleftrightarrow> S + sizeof_node L \<ge> R + sizeof_header L"

text \<open>
  The loop either breaks with the pair it assigns to \<^verbatim>\<open>*found\<close> and \<^verbatim>\<open>*previous\<close>, or runs
  off the list and assigns nothing.
\<close>

partial_function (option) find_loop ::
  "layout \<Rightarrow> memory \<Rightarrow> 64 word \<Rightarrow> addr \<Rightarrow> addr \<Rightarrow> (addr \<times> addr) option option" where
  "find_loop L m sz cur prev =
     (if cur \<noteq> 0 then
        if fits L (get_size m cur) sz then Some (Some (cur, prev))
        else find_loop L m sz (get_next m cur) cur
      else Some None)"

definition find_free ::
  "layout \<Rightarrow> heap_state \<Rightarrow> 64 word \<Rightarrow> addr \<times> addr \<Rightarrow> ((addr \<times> addr) \<times> heap_state) option" where
  "find_free L s sz found_previous =
     (case heap L s of (cur, s') \<Rightarrow>
        (case find_loop L (mem s') sz cur 0 of
           None \<Rightarrow> None
         | Some None \<Rightarrow> Some (found_previous, s')
         | Some (Some fp) \<Rightarrow> Some (fp, s')))"

subsection \<open>\<^verbatim>\<open>split\<close> and \<^verbatim>\<open>my_malloc\<close>\<close>

text \<open>\<^verbatim>\<open>split\<close> returns the state, the moved \<^verbatim>\<open>*free_block\<close> and \<^verbatim>\<open>*allocated\<close>.\<close>

definition split ::
  "layout \<Rightarrow> heap_state \<Rightarrow> 64 word \<Rightarrow> addr \<Rightarrow> addr \<Rightarrow> (heap_state \<times> addr \<times> addr) result" where
  "split L s sz previous free_block =
     (if free_block = 0 then Inl (AssertionFailed, s)
      else
        let original = free_block;
            actual_size = sz + sizeof_header L;
            free_block' = original + actual_size;
            m1 = set_size (mem s) free_block' (get_size (mem s) original - actual_size);
            m2 = set_next m1 free_block' (get_next m1 original);
            s2 = (if previous = 0 then s\<lparr>head := free_block', mem := m2\<rparr>
                  else s\<lparr>mem := set_next m2 previous free_block'\<rparr>);
            allocated = original;
            m3 = set_size (mem s2) allocated sz;
            m4 = set_magic m3 allocated (MAGIC L)
        in Inr (s2\<lparr>mem := m4\<rparr>, free_block', allocated))"

definition my_malloc :: "layout \<Rightarrow> heap_state \<Rightarrow> 64 word \<Rightarrow> (addr \<times> heap_state) result option" where
  "my_malloc L s sz =
     (case find_free L s sz (0, 0) of
        None \<Rightarrow> None
      | Some ((found, prev), s1) \<Rightarrow>
          if found = 0 then Some (Inr (0, s1))
          else (case split L s1 sz prev found of
                  Inl e \<Rightarrow> Some (Inl e)
                | Inr (s2, free_block, allocated) \<Rightarrow>
                    Some (Inr (allocated + sizeof_header L, s2))))"

subsection \<open>\<^verbatim>\<open>coalesce\<close> and \<^verbatim>\<open>my_free\<close>\<close>

partial_function (option) coalesce :: "layout \<Rightarrow> memory \<Rightarrow> addr \<Rightarrow> memory option" where
  "coalesce L m temp =
     (if temp \<noteq> 0 \<and> get_next m temp \<noteq> 0 then
        let block_size = get_size m temp + sizeof_node L in
        if temp + block_size = get_next m temp then
          let m1 = set_size m temp
                     (get_size m temp + (get_size m (get_next m temp) + sizeof_node L));
              m2 = set_next m1 temp (get_next m1 (get_next m1 temp))
          in coalesce L m2 temp
        else coalesce L m (get_next m temp)
      else Some m)"

definition my_free :: "layout \<Rightarrow> heap_state \<Rightarrow> addr \<Rightarrow> heap_state result option" where
  "my_free L s allocated =
     (let h = allocated - sizeof_header L in
      if get_magic (mem s) h \<noteq> MAGIC L then Some (Inl (AssertionFailed, s))
      else
        let temp = h;
            m1 = set_size (mem s) temp (get_size (mem s) h);
            m2 = set_next m1 temp (head s)
        in (case coalesce L m2 temp of
              None \<Rightarrow> None
            | Some m3 \<Rightarrow> Some (Inr (s\<lparr>mem := m3, head := temp\<rparr>))))"

section \<open>The free list as a list of blocks\<close>

text \<open>
  A block is the pair of a descriptor address and the value of its \<open>size\<close> field.
  \<open>list_seg m p bs q\<close>: following \<open>next\<close> from \<open>p\<close> visits the descriptors \<open>bs\<close>, in this
  order, and arrives at \<open>q\<close>. The free list is the segment that ends in \<^verbatim>\<open>NULL\<close>.
\<close>

type_synonym block = "addr \<times> 64 word"

fun list_seg :: "memory \<Rightarrow> addr \<Rightarrow> block list \<Rightarrow> addr \<Rightarrow> bool" where
  "list_seg m p [] q \<longleftrightarrow> p = q"
| "list_seg m p (b # bs) q \<longleftrightarrow>
     p = fst b \<and> p \<noteq> 0 \<and> get_size m p = snd b \<and> list_seg m (get_next m p) bs q"

text \<open>
  The footprint of a free block: its descriptor and the \<open>size\<close> bytes after it. In a
  well-formed list no footprint wraps around the address space and no two overlap.
\<close>

definition block_lo :: "block \<Rightarrow> nat" where
  "block_lo b = unat (fst b)"

definition block_hi :: "layout \<Rightarrow> block \<Rightarrow> nat" where
  "block_hi L b = unat (fst b) + unat (sizeof_node L) + unat (snd b)"

definition apart :: "layout \<Rightarrow> block \<Rightarrow> block \<Rightarrow> bool" where
  "apart L b c \<longleftrightarrow> block_hi L b \<le> block_lo c \<or> block_hi L c \<le> block_lo b"

fun wf_blocks :: "layout \<Rightarrow> block list \<Rightarrow> bool" where
  "wf_blocks L [] \<longleftrightarrow> True"
| "wf_blocks L (b # bs) \<longleftrightarrow>
     block_hi L b \<le> 2 ^ 64 \<and> list_all (apart L b) bs \<and> wf_blocks L bs"

definition layout_ok :: "layout \<Rightarrow> bool" where
  "layout_ok L \<longleftrightarrow> 16 \<le> sizeof_node L \<and> 16 \<le> sizeof_header L"

definition total_size :: "block list \<Rightarrow> nat" where
  "total_size bs = sum_list (map (\<lambda>b. unat (snd b)) bs)"

text \<open>Two 16-byte descriptors that do not overlap, in wrap-around arithmetic.\<close>

definition far :: "addr \<Rightarrow> addr \<Rightarrow> bool" where
  "far a b \<longleftrightarrow> 16 \<le> b - a \<and> 16 \<le> a - b"

section \<open>The coalescer on lists of blocks\<close>

text \<open>
  The walk of the spec, section 4.5, on the list of blocks: merge while the current block
  ends where its successor starts, staying at the current block; otherwise advance.
\<close>

fun coalesce_list :: "layout \<Rightarrow> block list \<Rightarrow> block list" where
  "coalesce_list L [] = []"
| "coalesce_list L [b] = [b]"
| "coalesce_list L (b # c # bs) =
     (if fst b + sizeof_node L + snd b = fst c
      then coalesce_list L ((fst b, snd b + (snd c + sizeof_node L)) # bs)
      else b # coalesce_list L (c # bs))"

section \<open>Frames and renderings\<close>

text \<open>
  \<open>unchanged_outside bs m m'\<close>: every descriptor that overlaps no descriptor of \<open>bs\<close> reads the
  same in \<open>m'\<close> as in \<open>m\<close>.
\<close>

definition unchanged_outside :: "block list \<Rightarrow> memory \<Rightarrow> memory \<Rightarrow> bool" where
  "unchanged_outside bs m m' \<longleftrightarrow>
     (\<forall>a. list_all (\<lambda>b. far (fst b) a) bs \<longrightarrow>
          get_size m' a = get_size m a \<and> get_next m' a = get_next m a)"

text \<open>What \<^verbatim>\<open>print_free_list\<close> writes for a list of blocks, before the newline.\<close>

fun render_list :: "block list \<Rightarrow> string" where
  "render_list [] = []"
| "render_list [b] = ''Free('' @ show_zd (snd b) @ '')''"
| "render_list (b # c # bs) = ''Free('' @ show_zd (snd b) @ '')'' @ ''->'' @ render_list (c # bs)"

section \<open>Concrete inputs\<close>

text \<open>
  A layout with the usual values: a 4096-byte arena that \<^verbatim>\<open>mmap\<close> places at \<open>0x10000\<close>, and
  16 bytes for a descriptor and for a header. Then the states of a run that starts with a
  heap never used before:
  \<^verbatim>\<open>a = my_malloc(100); b = my_malloc(100); my_free(a);\<close>
  In the last one, \<open>s_two\<close>, the free list is the block of \<open>a\<close> (100 bytes at \<open>0x10000\<close>)
  followed by the rest of the arena (3848 bytes at \<open>0x100E8\<close>), and \<open>b\<close> is allocated at
  \<open>0x10074\<close> in between.
\<close>

definition L0 :: layout where
  "L0 = \<lparr>HEAP_SIZE = 4096, MAGIC = 1234567, sizeof_node = 16, sizeof_header = 16,
          mmap_addr = 0x10000\<rparr>"

definition s_uninit :: heap_state where
  "s_uninit = \<lparr>head = 0, mem = (\<lambda>_. 0), os = []\<rparr>"

definition mem_init :: memory where
  "mem_init = set_next (set_size (mmap_fresh (\<lambda>_. 0) 0x10000 4096) 0x10000 4080) 0x10000 0"

definition s_fresh :: heap_state where
  "s_fresh = \<lparr>head = 0x10000, mem = mem_init, os = [Mmap 0x10000]\<rparr>"

definition mem_a :: memory where
  "mem_a =
     set_magic (set_size
       (set_next (set_size mem_init 0x10074 3964) 0x10074 0)
       0x10000 100) 0x10000 1234567"

definition s_a :: heap_state where
  "s_a = \<lparr>head = 0x10074, mem = mem_a, os = [Mmap 0x10000]\<rparr>"

definition mem_ab :: memory where
  "mem_ab =
     set_magic (set_size
       (set_next (set_size mem_a 0x100E8 3848) 0x100E8 0)
       0x10074 100) 0x10074 1234567"

definition s_ab :: heap_state where
  "s_ab = \<lparr>head = 0x100E8, mem = mem_ab, os = [Mmap 0x10000]\<rparr>"

definition mem_two :: memory where
  "mem_two = set_next (set_size mem_ab 0x10000 100) 0x10000 0x100E8"

definition s_two :: heap_state where
  "s_two = \<lparr>head = 0x10000, mem = mem_two, os = [Mmap 0x10000]\<rparr>"

text \<open>
  The state after \<^verbatim>\<open>my_malloc(84)\<close> in \<open>s_two\<close>: the request takes the first free block, whose
  100 bytes are exactly the 84 requested plus the 16 of the header.
\<close>

definition s_exact :: heap_state where
  "s_exact =
     \<lparr>head = 0x10064,
      mem = set_magic (set_size
              (set_next (set_size mem_two 0x10064 0) 0x10064 0x100E8)
              0x10000 84) 0x10000 1234567,
      os = [Mmap 0x10000]\<rparr>"

text \<open>
  The memory that \<^verbatim>\<open>my_free(b)\<close> hands to \<^verbatim>\<open>coalesce\<close> in the state \<open>s_ab\<close>: the block of \<open>b\<close>
  (100 bytes at \<open>0x10074\<close>) is linked in front of the rest of the arena (3848 bytes at
  \<open>0x100E8\<close>), which starts where it ends.
\<close>

definition mem_adj :: memory where
  "mem_adj = set_next (set_size mem_ab 0x10074 100) 0x10074 0x100E8"

text \<open>
  The states after \<^verbatim>\<open>q = my_malloc(200)\<close> in \<open>s_two\<close>, which takes the second free block, and
  after \<^verbatim>\<open>my_free(q)\<close> in that state.
\<close>

definition s_alloc :: heap_state where
  "s_alloc =
     \<lparr>head = 0x10000,
      mem = set_magic (set_size
              (set_next (set_next (set_size mem_two 0x101C0 3632) 0x101C0 0) 0x10000 0x101C0)
              0x100E8 200) 0x100E8 1234567,
      os = [Mmap 0x10000]\<rparr>"

definition s_freed :: heap_state where
  "s_freed =
     \<lparr>head = 0x100E8,
      mem = set_next (set_size (mem s_alloc) 0x100E8 200) 0x100E8 0x10000,
      os = [Mmap 0x10000]\<rparr>"

section \<open>Loads and stores\<close>

definition disj64 :: "addr \<Rightarrow> addr \<Rightarrow> bool" where
  "disj64 a b \<longleftrightarrow> 8 \<le> b - a \<and> 8 \<le> a - b"

lemma bit_load_bytes:
  "bit (load_bytes m a n) k \<longleftrightarrow>
     k < 8 * n \<and> k < 64 \<and> bit (m (a + of_nat (k div 8))) (k mod 8)"
proof (induction n arbitrary: a k)
  case 0
  then show ?case by simp
next
  case (Suc n)
  show ?case
  proof (cases "k < 8")
    case True
    then show ?thesis by (auto simp: bit_simps Suc dest: bit_imp_le_length)
  next
    case False
    have d: "k div 8 = Suc ((k - 8) div 8)" "k mod 8 = (k - 8) mod 8"
      using False by (simp_all add: le_div_geq le_mod_geq)
    have e: "a + 1 + word_of_nat ((k - 8) div 8) = a + word_of_nat (k div 8)"
      by (simp add: d)
    have "bit (load_bytes m a (Suc n)) k \<longleftrightarrow> k < 64 \<and> bit (load_bytes m (a + 1) n) (k - 8)"
      using False by (auto simp add: bit_simps dest: bit_imp_le_length)
    also have "\<dots> \<longleftrightarrow> k < 64 \<and> k - 8 < 8 * n \<and> bit (m (a + word_of_nat (k div 8))) (k mod 8)"
      unfolding Suc e d(2) by auto
    finally show ?thesis using False by auto
  qed
qed

lemma load_bytes_cong:
  "(\<And>i. i < n \<Longrightarrow> m (a + of_nat i) = m' (a + of_nat i)) \<Longrightarrow>
   load_bytes m a n = load_bytes m' a n"
proof (induction n arbitrary: a)
  case 0
  then show ?case by simp
next
  case (Suc n)
  have "m a = m' a" using Suc.prems [of 0] by simp
  moreover have "load_bytes m (a + 1) n = load_bytes m' (a + 1) n"
  proof (rule Suc.IH)
    fix i assume "i < n"
    then show "m (a + 1 + word_of_nat i) = m' (a + 1 + word_of_nat i)"
      using Suc.prems [of "Suc i"] by (simp add: add.assoc)
  qed
  ultimately show ?case by simp
qed

lemma small_offset:
  "i < 8 \<Longrightarrow> (word_of_nat i :: 64 word) < 8 \<and> unat (word_of_nat i :: 64 word) = i"
  by (simp add: word_less_nat_alt unat_of_nat)

lemma load_store_same: "load64 (store64 m a v) a = v"
proof (rule bit_word_eqI)
  fix k assume "k < LENGTH(64)"
  then have k: "k < 64" by simp
  then have "k div 8 < 8" by simp
  from small_offset [OF this] k
  show "bit (load64 (store64 m a v) a) k = bit v k"
    by (simp add: load64_def bit_load_bytes store64_def bit_simps)
qed

lemma load_store_other:
  assumes "disj64 a b"
  shows "load64 (store64 m a v) b = load64 m b"
  unfolding load64_def
proof (rule load_bytes_cong)
  fix i :: nat assume i: "i < 8"
  have ba: "8 \<le> unat (b - a)" "unat (b - a) \<le> 2 ^ 64 - 8"
    using assms unfolding disj64_def
    by (auto simp add: word_le_nat_alt unat_sub_if' split: if_splits)
  have "unat (b - a + word_of_nat i) = unat (b - a) + i"
    using i small_offset [OF i] ba
    by (simp add: unat_word_ariths)
  moreover have "b + word_of_nat i - a = b - a + word_of_nat i"
    by simp
  ultimately have "unat (b + word_of_nat i - a) = unat (b - a) + i"
    by (simp only:)
  then have "\<not> (b + word_of_nat i - a < 8)"
    using ba by (simp only: word_less_nat_alt) simp
  then show "store64 m a v (b + word_of_nat i) = m (b + word_of_nat i)"
    by (simp add: store64_def)
qed

lemma disj64_fields: "disj64 a (a + 8)" "disj64 (a + 8) a"
  by (simp_all add: disj64_def)

lemma far_sym: "far a b \<Longrightarrow> far b a"
  by (auto simp: far_def)

lemma unat_diff_sum:
  fixes a b :: "64 word"
  assumes "a \<noteq> b"
  shows "unat (b - a) + unat (a - b) = 2 ^ 64"
proof -
  have "unat a < 2 ^ 64" "unat b < 2 ^ 64"
    using unsigned_less [of a, where ?'a = nat] unsigned_less [of b, where ?'a = nat] by simp_all
  moreover have "unat a \<noteq> unat b"
    using assms by (simp add: word_unat_eq_iff)
  ultimately show ?thesis
    by (auto simp add: unat_sub_if')
qed

lemma unat_plus8:
  fixes x :: "64 word"
  assumes "unat x + 8 < 2 ^ 64"
  shows "unat (x + 8) = unat x + 8"
  using assms by (simp add: unat_word_ariths)

lemma unat_minus8:
  fixes x :: "64 word"
  assumes "8 \<le> unat x"
  shows "unat (x - 8) = unat x - 8"
  using assms by (simp add: unat_sub_if')

lemma far_disj64:
  assumes "far a b"
  shows "disj64 a b" "disj64 a (b + 8)" "disj64 (a + 8) b" "disj64 (a + 8) (b + 8)"
proof -
  have ba: "16 \<le> unat (b - a)" and ab: "16 \<le> unat (a - b)"
    using assms by (simp_all add: far_def word_le_nat_alt)
  have neq: "a \<noteq> b" using ba by auto
  note s = unat_diff_sum [OF neq]
  have p8: "unat (b + 8 - a) = unat (b - a) + 8"
  proof -
    have "b + 8 - a = (b - a) + 8" by simp
    moreover have "unat ((b - a) + 8) = unat (b - a) + 8"
      using ab s by (intro unat_plus8) simp
    ultimately show ?thesis by (simp only:)
  qed
  have m8: "unat (b - (a + 8)) = unat (b - a) - 8"
  proof -
    have "b - (a + 8) = (b - a) - 8" by simp
    moreover have "unat ((b - a) - 8) = unat (b - a) - 8"
      using ba by (intro unat_minus8) simp
    ultimately show ?thesis by (simp only:)
  qed
  have q8: "unat (a + 8 - b) = unat (a - b) + 8"
  proof -
    have "a + 8 - b = (a - b) + 8" by simp
    moreover have "unat ((a - b) + 8) = unat (a - b) + 8"
      using ba s by (intro unat_plus8) simp
    ultimately show ?thesis by (simp only:)
  qed
  have n8: "unat (a - (b + 8)) = unat (a - b) - 8"
  proof -
    have "a - (b + 8) = (a - b) - 8" by simp
    moreover have "unat ((a - b) - 8) = unat (a - b) - 8"
      using ab by (intro unat_minus8) simp
    ultimately show ?thesis by (simp only:)
  qed
  have u8: "unat (8 :: 64 word) = 8" by simp
  show "disj64 a b"
    using ba ab unfolding disj64_def word_le_nat_alt u8 by linarith
  show "disj64 a (b + 8)"
    using ba ab p8 n8 unfolding disj64_def word_le_nat_alt u8 by linarith
  show "disj64 (a + 8) b"
    using ba ab q8 m8 unfolding disj64_def word_le_nat_alt u8 by linarith
  have "b + 8 - (a + 8) = b - a" "a + 8 - (b + 8) = a - b" by simp_all
  then show "disj64 (a + 8) (b + 8)"
    using ba ab unfolding disj64_def word_le_nat_alt u8 by simp
qed

lemma far_natI:
  assumes "unat a + 16 \<le> unat b" "unat b + 16 \<le> 2 ^ 64"
  shows "far a b"
proof -
  have "unat (b - a) = unat b - unat a" "unat (a - b) = 2 ^ 64 + unat a - unat b"
    using assms by (simp_all add: unat_sub_if')
  moreover have "unat (16 :: 64 word) = 16" by simp
  ultimately show ?thesis
    using assms unfolding far_def word_le_nat_alt by linarith
qed

subsection \<open>Fields\<close>

lemma get_magic_eq: "get_magic m p = get_next m p"
  by (simp add: get_magic_def get_next_def)

lemma set_magic_eq: "set_magic m p v = set_next m p v"
  by (simp add: set_magic_def set_next_def)

lemma get_set_same [simp]:
  "get_size (set_size m a v) a = v"
  "get_next (set_next m a v) a = v"
  "get_size (set_next m a v) a = get_size m a"
  "get_next (set_size m a v) a = get_next m a"
  by (simp_all add: get_size_def get_next_def set_size_def set_next_def
      load_store_same load_store_other disj64_fields)

lemma get_set_far:
  assumes "far a b"
  shows "get_size (set_size m a v) b = get_size m b"
    and "get_size (set_next m a v) b = get_size m b"
    and "get_next (set_size m a v) b = get_next m b"
    and "get_next (set_next m a v) b = get_next m b"
  using far_disj64 [OF assms]
  by (simp_all add: get_size_def get_next_def set_size_def set_next_def load_store_other)

subsection \<open>Well-formed block lists\<close>

lemma apart_sym: "apart L b c \<Longrightarrow> apart L c b"
  by (auto simp: apart_def)

lemma apart_far:
  assumes "layout_ok L" "apart L b c" "block_hi L b \<le> 2 ^ 64" "block_hi L c \<le> 2 ^ 64"
  shows "far (fst b) (fst c)"
proof -
  have n: "16 \<le> unat (sizeof_node L)"
    using assms(1) by (simp add: layout_ok_def word_le_nat_alt)
  from assms(2) consider "block_hi L b \<le> block_lo c" | "block_hi L c \<le> block_lo b"
    by (auto simp: apart_def)
  then show ?thesis
  proof cases
    case 1
    show ?thesis
      by (rule far_natI) (use 1 n assms(4) in \<open>simp_all add: block_hi_def block_lo_def\<close>)
  next
    case 2
    show ?thesis
      by (rule far_sym, rule far_natI) (use 2 n assms(3) in \<open>simp_all add: block_hi_def block_lo_def\<close>)
  qed
qed

lemma wf_blocks_hi: "wf_blocks L bs \<Longrightarrow> b \<in> set bs \<Longrightarrow> block_hi L b \<le> 2 ^ 64"
  by (induction bs) auto

lemma wf_blocks_Cons_far:
  assumes "layout_ok L" "wf_blocks L (b # bs)" "c \<in> set bs"
  shows "far (fst b) (fst c)"
proof -
  have "apart L b c" using assms(2,3) by (simp add: list_all_iff)
  moreover have "block_hi L b \<le> 2 ^ 64" using assms(2) by simp
  moreover have "block_hi L c \<le> 2 ^ 64" using assms(2,3) wf_blocks_hi [of L bs c] by simp
  ultimately show ?thesis using assms(1) by (rule apart_far [rotated])
qed

lemma wf_blocks_append:
  "wf_blocks L (xs @ ys) \<longleftrightarrow>
     wf_blocks L xs \<and> wf_blocks L ys \<and> (\<forall>x\<in>set xs. \<forall>y\<in>set ys. apart L x y)"
  by (induction xs) (auto simp: list_all_iff)

subsection \<open>List segments\<close>

lemma list_seg_frame:
  assumes "\<forall>b\<in>set bs. get_size m' (fst b) = get_size m (fst b)
                      \<and> get_next m' (fst b) = get_next m (fst b)"
  shows "list_seg m' p bs q = list_seg m p bs q"
  using assms by (induction bs arbitrary: p) auto

lemma list_seg_append:
  "list_seg m p (xs @ ys) q \<longleftrightarrow> (\<exists>r. list_seg m p xs r \<and> list_seg m r ys q)"
  by (induction xs arbitrary: p) auto

lemma list_seg_null [simp]: "list_seg m 0 bs q \<longleftrightarrow> bs = [] \<and> q = 0"
  by (cases bs) auto

lemma list_seg_unique: "list_seg m p bs 0 \<Longrightarrow> list_seg m p cs 0 \<Longrightarrow> bs = cs"
proof (induction bs arbitrary: p cs)
  case Nil
  then show ?case by simp
next
  case (Cons b bs)
  then show ?case by (cases cs) (auto simp: prod_eq_iff)
qed

subsection \<open>The loops on a free list\<close>

lemma available_loop_sum:
  "list_seg m p bs 0 \<Longrightarrow> available_loop m p n = Some (n + sum_list (map snd bs))"
proof (induction bs arbitrary: p n)
  case Nil
  then show ?case by (subst available_loop.simps) simp
next
  case (Cons b bs)
  from Cons.prems have p: "p = fst b" "fst b \<noteq> 0" "get_size m (fst b) = snd b"
    and rest: "list_seg m (get_next m (fst b)) bs 0" by auto
  show ?case
    by (subst available_loop.simps) (simp add: p Cons.IH [OF rest] add.assoc)
qed

lemma count_loop_length:
  "list_seg m p bs 0 \<Longrightarrow> count_loop m p c = Some (c + of_nat (length bs))"
proof (induction bs arbitrary: p c)
  case Nil
  then show ?case by (subst count_loop.simps) simp
next
  case (Cons b bs)
  from Cons.prems have p: "p = fst b" "fst b \<noteq> 0"
    and rest: "list_seg m (get_next m (fst b)) bs 0" by auto
  show ?case
    by (subst count_loop.simps) (simp add: p Cons.IH [OF rest] add.assoc)
qed

lemma find_loop_found:
  assumes "list_seg m p pre B" "B \<noteq> 0" "fits L (get_size m B) R"
    and "\<forall>b\<in>set pre. \<not> fits L (snd b) R"
  shows "find_loop L m R p prev = Some (Some (B, if pre = [] then prev else fst (last pre)))"
  using assms
proof (induction pre arbitrary: p prev)
  case Nil
  then show ?case by (subst find_loop.simps) simp
next
  case (Cons b pre)
  then show ?case by (subst find_loop.simps) auto
qed


subsection \<open>Merging two adjacent blocks\<close>

lemma block_hi_ge: "layout_ok L \<Longrightarrow> block_lo b + 16 \<le> block_hi L b"
  by (simp add: layout_ok_def word_le_nat_alt block_lo_def block_hi_def)

lemma adjacent_nat:
  assumes "block_hi L b \<le> 2 ^ 64" "fst b + sizeof_node L + snd b = c" "c \<noteq> 0"
  shows "unat c = block_hi L b"
proof -
  have "unat c = (unat (fst b) + unat (sizeof_node L) + unat (snd b)) mod 2 ^ 64"
    unfolding assms(2) [symmetric] by (simp add: unat_word_ariths mod_simps)
  moreover have "block_hi L b \<noteq> 2 ^ 64"
  proof
    assume "block_hi L b = 2 ^ 64"
    with calculation have "unat c = 0" by (simp add: block_hi_def)
    with assms(3) show False by (simp add: unat_eq_0)
  qed
  ultimately show ?thesis using assms(1) by (simp add: block_hi_def)
qed

lemma merge_blocks:
  assumes ok: "layout_ok L" and wf: "wf_blocks L (b # c # bs)"
    and adj: "fst b + sizeof_node L + snd b = fst c" and nz: "fst c \<noteq> 0"
  shows "unat (snd b + (snd c + sizeof_node L)) = unat (snd b) + unat (snd c) + unat (sizeof_node L)"
    and "wf_blocks L ((fst b, snd b + (snd c + sizeof_node L)) # bs)"
proof -
  have hb: "block_hi L b \<le> 2 ^ 64" and hc: "block_hi L c \<le> 2 ^ 64" using wf by simp_all
  have lc: "block_lo c = block_hi L b"
    using adjacent_nat [OF hb adj nz] by (simp add: block_lo_def)
  have n16: "16 \<le> unat (sizeof_node L)"
    using ok by (simp add: layout_ok_def word_le_nat_alt)
  have small: "unat (snd b) + unat (snd c) + unat (sizeof_node L) < 2 ^ 64"
    using hc lc n16 unfolding block_hi_def block_lo_def by linarith
  then have "unat (snd c + sizeof_node L) = unat (snd c) + unat (sizeof_node L)"
    by (simp add: unat_word_ariths)
  with small show sz: "unat (snd b + (snd c + sizeof_node L))
      = unat (snd b) + unat (snd c) + unat (sizeof_node L)"
    by (simp add: unat_word_ariths)
  let ?n = "(fst b, snd b + (snd c + sizeof_node L))"
  have hn: "block_hi L ?n = block_hi L c"
    using sz lc by (simp add: block_hi_def block_lo_def)
  have ln: "block_lo ?n = block_lo b" by (simp add: block_lo_def)
  have "apart L ?n d" if d: "d \<in> set bs" for d
  proof -
    have bd: "apart L b d" and cd: "apart L c d" using wf d by (simp_all add: list_all_iff)
    have "block_lo d + 16 \<le> block_hi L d" by (rule block_hi_ge [OF ok])
    then show ?thesis
      using bd cd lc unfolding apart_def hn ln by linarith
  qed
  then show "wf_blocks L (?n # bs)"
    using wf hn hc by (simp add: list_all_iff)
qed

subsection \<open>The coalescer refines the walk on lists\<close>

lemma unchanged_outside_refl: "unchanged_outside bs m m"
  by (simp add: unchanged_outside_def)

lemma list_seg_unchanged:
  assumes "unchanged_outside cs m m'" "\<forall>b\<in>set bs. \<forall>c\<in>set cs. far (fst c) (fst b)"
  shows "list_seg m' p bs q = list_seg m p bs q"
proof (rule list_seg_frame, rule ballI)
  fix b assume "b \<in> set bs"
  with assms(2) have "list_all (\<lambda>c. far (fst c) (fst b)) cs" by (simp add: list_all_iff)
  with assms(1) show "get_size m' (fst b) = get_size m (fst b) \<and> get_next m' (fst b) = get_next m (fst b)"
    by (simp add: unchanged_outside_def)
qed

lemma coalesce_list_hd:
  "bs \<noteq> [] \<Longrightarrow> coalesce_list L bs \<noteq> [] \<and> fst (hd (coalesce_list L bs)) = fst (hd bs)"
  by (induction L bs rule: coalesce_list.induct) auto

lemma coalesce_refines:
  assumes "layout_ok L" "wf_blocks L bs" "list_seg m p bs 0"
  shows "\<exists>m'. coalesce L m p = Some m' \<and> list_seg m' p (coalesce_list L bs) 0
              \<and> unchanged_outside bs m m'"
  using assms
proof (induction L bs arbitrary: m p rule: coalesce_list.induct)
  case (1 L)
  then show ?case
    by (subst coalesce.simps) (simp add: unchanged_outside_refl)
next
  case (2 L b)
  then show ?case
    by (subst coalesce.simps) (auto simp add: unchanged_outside_refl)
next
  case (3 L b c bs)
  note ok = \<open>layout_ok L\<close> and wf = \<open>wf_blocks L (b # c # bs)\<close>
  from \<open>list_seg m p (b # c # bs) 0\<close>
  have p: "p = fst b" and bnz: "fst b \<noteq> 0" and bsz: "get_size m (fst b) = snd b"
    and bnx: "get_next m (fst b) = fst c" and cnz: "fst c \<noteq> 0"
    and csz: "get_size m (fst c) = snd c" and rest: "list_seg m (get_next m (fst c)) bs 0"
    by auto
  have far_bc: "far (fst b) (fst c)"
    by (rule wf_blocks_Cons_far [OF ok wf]) simp
  have far_b: "far (fst b) (fst d)" if "d \<in> set bs" for d
    by (rule wf_blocks_Cons_far [OF ok wf]) (use that in simp)
  have wfc: "wf_blocks L (c # bs)" using wf by simp
  have far_c: "far (fst c) (fst d)" if "d \<in> set bs" for d
    by (rule wf_blocks_Cons_far [OF ok wfc]) (use that in simp)
  show ?case
  proof (cases "fst b + sizeof_node L + snd b = fst c")
    case True
    let ?n = "(fst b, snd b + (snd c + sizeof_node L))"
    let ?m1 = "set_size m (fst b) (snd b + (snd c + sizeof_node L))"
    let ?m2 = "set_next ?m1 (fst b) (get_next m (fst c))"
    have wfn: "wf_blocks L (?n # bs)"
      by (rule merge_blocks(2) [OF ok wf True cnz])
    have fr: "\<forall>d\<in>set bs. get_size ?m2 (fst d) = get_size m (fst d)
                        \<and> get_next ?m2 (fst d) = get_next m (fst d)"
      using far_b by (simp add: get_set_far)
    have seg: "list_seg ?m2 (fst b) (?n # bs) 0"
      using bnz rest by (simp add: list_seg_frame [OF fr])
    from "3.IH"(1) [OF True ok wfn seg]
    obtain m' where m': "coalesce L ?m2 (fst b) = Some m'"
      "list_seg m' (fst b) (coalesce_list L (?n # bs)) 0" "unchanged_outside (?n # bs) ?m2 m'"
      by blast
    have step: "coalesce L m (fst b) = coalesce L ?m2 (fst b)"
      using True bnz bnx cnz bsz csz
      by (subst coalesce.simps) (simp add: Let_def add.commute add.left_commute get_set_far [OF far_bc])
    have "unchanged_outside (b # c # bs) m m'"
      unfolding unchanged_outside_def
    proof (intro allI impI)
      fix a assume a: "list_all (\<lambda>d. far (fst d) a) (b # c # bs)"
      then have "list_all (\<lambda>d. far (fst d) a) (?n # bs)" by simp
      with m'(3) have "get_size m' a = get_size ?m2 a \<and> get_next m' a = get_next ?m2 a"
        by (simp add: unchanged_outside_def)
      moreover have "far (fst b) a" using a by simp
      ultimately show "get_size m' a = get_size m a \<and> get_next m' a = get_next m a"
        by (simp add: get_set_far)
    qed
    with m' step True show ?thesis by (auto simp: p)
  next
    case False
    have seg: "list_seg m (fst c) (c # bs) 0"
      using cnz csz rest by simp
    from "3.IH"(2) [OF False ok wfc seg]
    obtain m' where m': "coalesce L m (fst c) = Some m'"
      "list_seg m' (fst c) (coalesce_list L (c # bs)) 0" "unchanged_outside (c # bs) m m'"
      by blast
    have step: "coalesce L m (fst b) = coalesce L m (fst c)"
      using False bnz bnx cnz bsz
      by (subst coalesce.simps) (simp add: Let_def add.commute add.left_commute)
    have "list_all (\<lambda>d. far (fst d) (fst b)) (c # bs)"
      using far_bc far_b by (auto simp: list_all_iff intro: far_sym)
    with m'(3) have b': "get_size m' (fst b) = snd b" "get_next m' (fst b) = fst c"
      using bsz bnx by (simp_all add: unchanged_outside_def)
    have "unchanged_outside (b # c # bs) m m'"
      using m'(3) by (simp add: unchanged_outside_def)
    with m' step False b' bnz show ?thesis by (auto simp: p)
  qed
qed

subsection \<open>\<^verbatim>\<open>heap\<close>\<close>

lemma heap_initialised: "head s \<noteq> 0 \<Longrightarrow> heap L s = (head s, s)"
  by (simp add: heap_def)

lemma heap_fresh:
  assumes "head s = 0" "mmap_addr L \<noteq> 0"
  shows "\<exists>s'. heap L s = (mmap_addr L, s') \<and> head s' = mmap_addr L
           \<and> os s' = os s @ [Mmap (mmap_addr L)]
           \<and> list_seg (mem s') (mmap_addr L) [(mmap_addr L, HEAP_SIZE L - sizeof_node L)] 0"
  using assms by (simp add: heap_def Let_def)

lemma heap_head: "heap L s = (p, s') \<Longrightarrow> p = head s'"
  by (auto simp: heap_def Let_def split: if_splits)


subsection \<open>The printer\<close>

lemma print_loop_render:
  "list_seg m p bs 0 \<Longrightarrow> print_loop m p out = Some (out @ render_list bs)"
proof (induction bs arbitrary: p out rule: render_list.induct)
  case 1
  then show ?case by (subst print_loop.simps) simp
next
  case (2 b)
  then have p: "p = fst b" "fst b \<noteq> 0" "get_size m (fst b) = snd b" "get_next m (fst b) = 0"
    by auto
  show ?case
    by (subst print_loop.simps, simp add: p Let_def, subst print_loop.simps, simp)
next
  case (3 b c bs)
  then have p: "p = fst b" "fst b \<noteq> 0" "get_size m (fst b) = snd b" "get_next m (fst b) = fst c"
    "fst c \<noteq> 0" and rest: "list_seg m (fst c) (c # bs) 0"
    by auto
  show ?case
    by (subst print_loop.simps) (simp add: p Let_def "3.IH" [OF rest])
qed

subsection \<open>Writes to descriptors\<close>

lemma unchanged_outside_set:
  assumes "unchanged_outside ws m m'" "a \<in> fst ` set ws"
  shows "unchanged_outside ws m (set_size m' a v)"
    and "unchanged_outside ws m (set_next m' a v)"
    and "unchanged_outside ws m (set_magic m' a v)"
proof -
  have "far a x" if "list_all (\<lambda>b. far (fst b) x) ws" for x
    using that assms(2) by (auto simp: list_all_iff)
  then show "unchanged_outside ws m (set_size m' a v)"
    and "unchanged_outside ws m (set_next m' a v)"
    and "unchanged_outside ws m (set_magic m' a v)"
    using assms(1) by (simp_all add: unchanged_outside_def get_set_far set_magic_eq)
qed

subsection \<open>Carving the allocated block out of a free block\<close>

lemma remainder_block:
  assumes ok: "layout_ok L" and hi: "block_hi L (B, S) \<le> 2 ^ 64"
    and room: "unat R + unat (sizeof_header L) \<le> unat S"
  shows "unat (R + sizeof_header L) = unat R + unat (sizeof_header L)"
    and "unat (B + (R + sizeof_header L)) = unat B + (unat R + unat (sizeof_header L))"
    and "unat (S - (R + sizeof_header L)) = unat S - (unat R + unat (sizeof_header L))"
    and "block_hi L (B + (R + sizeof_header L), S - (R + sizeof_header L)) = block_hi L (B, S)"
    and "block_lo (B, S) \<le> block_lo (B + (R + sizeof_header L), S - (R + sizeof_header L))"
    and "far B (B + (R + sizeof_header L))"
proof -
  have n16: "16 \<le> unat (sizeof_node L)" and h16: "16 \<le> unat (sizeof_header L)"
    using ok by (simp_all add: layout_ok_def word_le_nat_alt)
  have S: "unat S < 2 ^ 64" using unsigned_less [of S, where ?'a = nat] by simp
  show a: "unat (R + sizeof_header L) = unat R + unat (sizeof_header L)"
    using room S by (simp add: unat_word_ariths)
  have b: "unat B + (unat R + unat (sizeof_header L)) + 16 \<le> 2 ^ 64"
    using hi room n16 unfolding block_hi_def by simp
  then show ba: "unat (B + (R + sizeof_header L)) = unat B + (unat R + unat (sizeof_header L))"
    by (simp add: unat_word_ariths a)
  show sa: "unat (S - (R + sizeof_header L)) = unat S - (unat R + unat (sizeof_header L))"
    using room by (simp add: unat_sub_if' a)
  show "block_hi L (B + (R + sizeof_header L), S - (R + sizeof_header L)) = block_hi L (B, S)"
    using room by (simp add: block_hi_def ba sa)
  show "block_lo (B, S) \<le> block_lo (B + (R + sizeof_header L), S - (R + sizeof_header L))"
    by (simp add: block_lo_def ba)
  show "far B (B + (R + sizeof_header L))"
    by (rule far_natI) (use b h16 in \<open>simp_all add: ba\<close>)
qed

lemma remainder_apart:
  assumes ok: "layout_ok L" and hi: "block_hi L (B, S) \<le> 2 ^ 64"
    and room: "unat R + unat (sizeof_header L) \<le> unat S"
    and ap: "apart L (B, S) d"
  shows "apart L (B + (R + sizeof_header L), S - (R + sizeof_header L)) d"
  using ap remainder_block(4,5) [OF ok hi room] unfolding apart_def by linarith

lemma remainder_wf:
  assumes ok: "layout_ok L" and wf: "wf_blocks L (pre @ (B, S) # post)"
    and room: "unat R + unat (sizeof_header L) \<le> unat S"
  shows "wf_blocks L (pre @ (B + (R + sizeof_header L), S - (R + sizeof_header L)) # post)"
proof -
  let ?n = "(B + (R + sizeof_header L), S - (R + sizeof_header L))"
  from wf have wpre: "wf_blocks L pre" and hi: "block_hi L (B, S) \<le> 2 ^ 64"
    and la: "list_all (apart L (B, S)) post" and wpost: "wf_blocks L post"
    and cross: "\<forall>x\<in>set pre. \<forall>y\<in>set ((B, S) # post). apart L x y"
    unfolding wf_blocks_append by simp_all
  note ra = remainder_apart [OF ok hi room]
  have 1: "list_all (apart L ?n) post"
    using la unfolding list_all_iff by (blast intro: ra)
  have 2: "block_hi L ?n \<le> 2 ^ 64"
    using hi by (simp only: remainder_block(4) [OF ok hi room])
  have 3: "apart L x y" if "x \<in> set pre" "y \<in> set (?n # post)" for x y
  proof (cases "y = ?n")
    case True
    have "apart L (B, S) x" using cross that(1) by (auto intro: apart_sym)
    then have "apart L ?n x" by (rule ra)
    then show ?thesis unfolding True by (rule apart_sym)
  next
    case False
    with that cross show ?thesis by simp
  qed
  have "wf_blocks L (?n # post)"
    using 1 2 wpost by simp
  with wpre 3 show ?thesis
    unfolding wf_blocks_append by blast
qed

lemma wf_blocks_far_mid:
  assumes ok: "layout_ok L" and wf: "wf_blocks L (pre @ b # post)"
    and d: "d \<in> set pre \<union> set post"
  shows "far (fst b) (fst d)" "far (fst d) (fst b)"
proof -
  have hb: "block_hi L b \<le> 2 ^ 64"
    using wf_blocks_hi [OF wf, of b] by simp
  have hd: "block_hi L d \<le> 2 ^ 64"
    using wf_blocks_hi [OF wf, of d] d by auto
  from wf have la: "list_all (apart L b) post"
    and cross: "\<forall>x\<in>set pre. \<forall>y\<in>set (b # post). apart L x y"
    unfolding wf_blocks_append by simp_all
  have "apart L b d"
  proof (cases "d \<in> set pre")
    case True
    with cross have "apart L d b" by simp
    then show ?thesis by (rule apart_sym)
  next
    case False
    with d la show ?thesis by (simp add: list_all_iff)
  qed
  then show "far (fst b) (fst d)"
    by (rule apart_far [OF ok _ hb hd])
  then show "far (fst d) (fst b)" by (rule far_sym)
qed

lemma split_result:
  assumes "fb \<noteq> 0"
  shows "\<exists>s'. split L s R prev fb = Inr (s', fb + (R + sizeof_header L), fb)
          \<and> head s' = (if prev = 0 then fb + (R + sizeof_header L) else head s)
          \<and> os s' = os s
          \<and> mem s' =
              set_magic
                (set_size
                  (if prev = 0
                   then set_next
                          (set_size (mem s) (fb + (R + sizeof_header L))
                             (get_size (mem s) fb - (R + sizeof_header L)))
                          (fb + (R + sizeof_header L))
                          (get_next
                             (set_size (mem s) (fb + (R + sizeof_header L))
                                (get_size (mem s) fb - (R + sizeof_header L))) fb)
                   else set_next
                          (set_next
                             (set_size (mem s) (fb + (R + sizeof_header L))
                                (get_size (mem s) fb - (R + sizeof_header L)))
                             (fb + (R + sizeof_header L))
                             (get_next
                                (set_size (mem s) (fb + (R + sizeof_header L))
                                   (get_size (mem s) fb - (R + sizeof_header L))) fb))
                          prev (fb + (R + sizeof_header L)))
                  fb R)
                fb (MAGIC L)"
  using assms by (simp add: split_def Let_def)

lemma split_list:
  assumes ok: "layout_ok L" and wf: "wf_blocks L (pre @ (B, S) # post)"
    and seg: "list_seg (mem s) (head s) (pre @ (B, S) # post) 0"
    and room: "unat R + unat (sizeof_header L) \<le> unat S"
    and prev: "prev = (if pre = [] then 0 else fst (last pre))"
  shows "\<exists>s'. split L s R prev B = Inr (s', B + (R + sizeof_header L), B)
          \<and> head s' = (if pre = [] then B + (R + sizeof_header L) else head s)
          \<and> os s' = os s
          \<and> list_seg (mem s') (head s')
                (pre @ (B + (R + sizeof_header L), S - (R + sizeof_header L)) # post) 0
          \<and> get_size (mem s') B = R \<and> get_magic (mem s') B = MAGIC L
          \<and> (pre \<noteq> [] \<longrightarrow> get_next (mem s') (fst (last pre)) = B + (R + sizeof_header L))
          \<and> get_next (mem s') (B + (R + sizeof_header L)) = get_next (mem s) B"
proof -
  let ?A = "R + sizeof_header L"
  let ?n = "(B + ?A, S - ?A)"
  let ?m = "mem s"
  from seg have segpre: "list_seg ?m (head s) pre B" and Bnz: "B \<noteq> 0"
    and Bsz: "get_size ?m B = S" and segpost: "list_seg ?m (get_next ?m B) post 0"
    by (auto simp add: list_seg_append)
  have hi: "block_hi L (B, S) \<le> 2 ^ 64"
    using wf unfolding wf_blocks_append by simp
  note rb = remainder_block [OF ok hi room]
  have fB: "far B (B + ?A)" "far (B + ?A) B"
    using rb(6) by (auto intro: far_sym)
  have nnz: "B + ?A \<noteq> 0"
  proof
    assume "B + ?A = 0"
    then have "unat (B + ?A) = 0" by simp
    with rb(2) have "unat B = 0" by simp
    with Bnz show False by (simp add: unat_eq_0)
  qed
  have wfn: "wf_blocks L (pre @ ?n # post)"
    by (rule remainder_wf [OF ok wf room])
  have fdB: "far (fst d) B" "far B (fst d)" if "d \<in> set pre \<union> set post" for d
    using wf_blocks_far_mid [OF ok wf that] by simp_all
  have fdn: "far (fst d) (B + ?A)" "far (B + ?A) (fst d)" if "d \<in> set pre \<union> set post" for d
    using wf_blocks_far_mid [OF ok wfn that] by simp_all
  let ?m1 = "set_size ?m (B + ?A) (S - ?A)"
  let ?m2 = "set_next ?m1 (B + ?A) (get_next ?m B)"
  have n1: "get_next ?m1 B = get_next ?m B"
    by (simp add: get_set_far fB)
  from split_result [OF Bnz, of L s R prev]
  obtain s' where s': "split L s R prev B = Inr (s', B + ?A, B)"
    "head s' = (if prev = 0 then B + ?A else head s)" "os s' = os s"
    "mem s' = set_magic (set_size (if prev = 0 then ?m2 else set_next ?m2 prev (B + ?A)) B R) B (MAGIC L)"
    unfolding Bsz n1 by blast
  show ?thesis
  proof (cases "pre = []")
    case True
    then have p0: "prev = 0" using prev by simp
    let ?m5 = "set_magic (set_size ?m2 B R) B (MAGIC L)"
    have m5: "mem s' = ?m5" using s'(4) p0 by simp
    have fr: "\<forall>d\<in>set post. get_size (mem s') (fst d) = get_size ?m (fst d)
                          \<and> get_next (mem s') (fst d) = get_next ?m (fst d)"
      unfolding m5 using fdB fdn by (simp add: get_set_far set_magic_eq)
    have n5: "get_size (mem s') (B + ?A) = S - ?A" "get_next (mem s') (B + ?A) = get_next ?m B"
      unfolding m5 by (simp_all add: get_set_far fB set_magic_eq)
    have "list_seg (mem s') (B + ?A) (?n # post) 0"
      using nnz segpost n5 by (simp add: list_seg_frame [OF fr])
    moreover have "get_size (mem s') B = R" "get_magic (mem s') B = MAGIC L"
      unfolding m5 by (simp_all add: get_set_far fB set_magic_eq get_magic_eq)
    ultimately show ?thesis
      using s'(1,2,3) True p0 n5(2) by (intro exI [of _ s']) simp
  next
    case False
    then obtain pre' Pb where pre: "pre = pre' @ [Pb]"
      by (cases pre rule: rev_cases) auto
    let ?P = "fst Pb"
    have pP: "prev = ?P" using prev pre by simp
    from segpre have segpre': "list_seg ?m (head s) pre' ?P" and Pnz: "?P \<noteq> 0"
      and Psz: "get_size ?m ?P = snd Pb" and Pnx: "get_next ?m ?P = B"
      unfolding pre by (auto simp add: list_seg_append)
    have Pin: "Pb \<in> set pre \<union> set post" using pre by simp
    have wf': "wf_blocks L (pre' @ Pb # ((B, S) # post))" using wf pre by simp
    have fdP: "far (fst d) ?P" "far ?P (fst d)" if "d \<in> set pre' \<union> set post" for d
      using wf_blocks_far_mid [OF ok wf', of d] that by auto
    let ?m3 = "set_next ?m2 ?P (B + ?A)"
    let ?m5 = "set_magic (set_size ?m3 B R) B (MAGIC L)"
    have m5: "mem s' = ?m5" using s'(4) pP Pnz by simp
    have hd: "head s' = head s" using s'(2) pP Pnz by simp
    have fr: "\<forall>d\<in>set pre' \<union> set post. get_size (mem s') (fst d) = get_size ?m (fst d)
                          \<and> get_next (mem s') (fst d) = get_next ?m (fst d)"
      unfolding m5 using fdB fdn fdP pre by (simp add: get_set_far set_magic_eq)
    have fr1: "\<forall>d\<in>set pre'. get_size (mem s') (fst d) = get_size ?m (fst d)
                          \<and> get_next (mem s') (fst d) = get_next ?m (fst d)"
      and fr2: "\<forall>d\<in>set post. get_size (mem s') (fst d) = get_size ?m (fst d)
                          \<and> get_next (mem s') (fst d) = get_next ?m (fst d)"
      using fr by simp_all
    have P5: "get_size (mem s') ?P = snd Pb" "get_next (mem s') ?P = B + ?A"
      unfolding m5 using fdB [OF Pin] fdn [OF Pin] Psz by (simp_all add: get_set_far set_magic_eq)
    have n5: "get_size (mem s') (B + ?A) = S - ?A" "get_next (mem s') (B + ?A) = get_next ?m B"
      unfolding m5 using fdB [OF Pin] fdn [OF Pin] by (simp_all add: get_set_far fB set_magic_eq)
    have "list_seg (mem s') (head s) (pre' @ [Pb]) (B + ?A)"
      using segpre' Pnz P5 by (simp add: list_seg_append list_seg_frame [OF fr1])
    moreover have "list_seg (mem s') (B + ?A) (?n # post) 0"
      using nnz segpost n5 by (simp add: list_seg_frame [OF fr2])
    ultimately have "list_seg (mem s') (head s) (pre @ ?n # post) 0"
      unfolding pre list_seg_append [of _ _ "pre' @ [Pb]"] by blast
    moreover have "get_size (mem s') B = R" "get_magic (mem s') B = MAGIC L"
      unfolding m5 by (simp_all add: get_set_far fB set_magic_eq get_magic_eq)
    ultimately show ?thesis
      using s'(1,3) False hd P5(2) n5(2) by (intro exI [of _ s']) (simp add: pre)
  qed
qed

subsection \<open>The concrete states\<close>

lemma mem_two_fields:
  "get_size mem_two 0x10000 = 100" "get_next mem_two 0x10000 = 0x100E8"
  "get_size mem_two 0x100E8 = 3848" "get_next mem_two 0x100E8 = 0"
  "get_size mem_two 0x10074 = 100" "get_magic mem_two 0x10074 = 1234567"
  by (simp_all add: mem_two_def mem_ab_def get_set_far far_def set_magic_eq get_magic_eq)

lemma s_two_list:
  "list_seg (mem s_two) (head s_two) [(0x10000, 100), (0x100E8, 3848)] 0"
  by (simp add: s_two_def mem_two_fields)

subsection \<open>\<^verbatim>\<open>my_malloc\<close> on a well-formed free list\<close>

lemma room_fits:
  assumes hi: "block_hi L (B, S) \<le> 2 ^ 64" and nz: "B \<noteq> 0"
    and room: "unat R + unat (sizeof_header L) \<le> unat S"
  shows "fits L S R"
proof -
  have "0 < unat B" using nz by (simp add: unat_gt_0)
  with hi have "unat S + unat (sizeof_node L) < 2 ^ 64"
    by (simp add: block_hi_def)
  then have "unat (S + sizeof_node L) = unat S + unat (sizeof_node L)"
    by (simp add: unat_word_ariths)
  moreover have "unat S < 2 ^ 64" using unsigned_less [of S, where ?'a = nat] by simp
  with room have "unat (R + sizeof_header L) = unat R + unat (sizeof_header L)"
    by (simp add: unat_word_ariths)
  ultimately show ?thesis
    using room by (simp add: fits_def word_le_nat_alt)
qed

lemma my_malloc_list:
  assumes ok: "layout_ok L" and hp: "heap L s = (p, s1)"
    and wf: "wf_blocks L (pre @ (B, S) # post)"
    and seg: "list_seg (mem s1) p (pre @ (B, S) # post) 0"
    and nofit: "\<forall>b\<in>set pre. \<not> fits L (snd b) R"
    and room: "unat R + unat (sizeof_header L) \<le> unat S"
  shows "\<exists>s'. my_malloc L s R = Some (Inr (B + sizeof_header L, s'))
          \<and> head s' = (if pre = [] then B + (R + sizeof_header L) else p)
          \<and> os s' = os s1
          \<and> list_seg (mem s') (head s')
                (pre @ (B + (R + sizeof_header L), S - (R + sizeof_header L)) # post) 0
          \<and> get_size (mem s') B = R \<and> get_magic (mem s') B = MAGIC L
          \<and> (pre \<noteq> [] \<longrightarrow> get_next (mem s') (fst (last pre)) = B + (R + sizeof_header L))
          \<and> get_next (mem s') (B + (R + sizeof_header L)) = get_next (mem s1) B"
proof -
  have ph: "p = head s1" by (rule heap_head [OF hp])
  from seg have segpre: "list_seg (mem s1) p pre B" and Bnz: "B \<noteq> 0"
    and Bsz: "get_size (mem s1) B = S"
    by (auto simp add: list_seg_append)
  have hi: "block_hi L (B, S) \<le> 2 ^ 64"
    using wf unfolding wf_blocks_append by simp
  have fit: "fits L (get_size (mem s1) B) R"
    unfolding Bsz by (rule room_fits [OF hi Bnz room])
  have ff: "find_free L s R (0, 0) = Some ((B, if pre = [] then 0 else fst (last pre)), s1)"
    using hp find_loop_found [OF segpre Bnz fit nofit, of 0] by (simp add: find_free_def)
  from split_list [OF ok wf seg [unfolded ph] room refl]
  obtain s' where s': "split L s1 R (if pre = [] then 0 else fst (last pre)) B
        = Inr (s', B + (R + sizeof_header L), B)"
    and rest: "head s' = (if pre = [] then B + (R + sizeof_header L) else head s1)"
      "os s' = os s1"
      "list_seg (mem s') (head s')
          (pre @ (B + (R + sizeof_header L), S - (R + sizeof_header L)) # post) 0"
      "get_size (mem s') B = R" "get_magic (mem s') B = MAGIC L"
      "pre \<noteq> [] \<longrightarrow> get_next (mem s') (fst (last pre)) = B + (R + sizeof_header L)"
      "get_next (mem s') (B + (R + sizeof_header L)) = get_next (mem s1) B"
    by blast
  have "my_malloc L s R = Some (Inr (B + sizeof_header L, s'))"
    using Bnz by (simp add: my_malloc_def ff s')
  with rest show ?thesis unfolding ph by blast
qed

lemma L0_ok: "layout_ok L0"
  by (simp add: layout_ok_def L0_def)

lemma s_two_heap: "heap L0 s_two = (0x10000, s_two)"
  by (simp add: heap_def s_two_def)

lemma s_two_wf: "wf_blocks L0 [(0x10000, 100), (0x100E8, 3848)]"
  by (simp add: block_hi_def block_lo_def apart_def L0_def)

lemma get_size_set_next_disj:
  "disj64 (a + 8) b \<Longrightarrow> get_size (set_next m a v) b = get_size m b"
  by (simp add: get_size_def set_next_def load_store_other)

subsection \<open>Properties of the walk on lists\<close>

lemma list_seg_nonnull: "list_seg m p bs q \<Longrightarrow> \<forall>b\<in>set bs. fst b \<noteq> 0"
  by (induction bs arbitrary: p) auto

lemma coalesce_list_total:
  assumes "layout_ok L" "wf_blocks L bs" "\<forall>b\<in>set bs. fst b \<noteq> 0"
  shows "total_size (coalesce_list L bs) + length (coalesce_list L bs) * unat (sizeof_node L)
         = total_size bs + length bs * unat (sizeof_node L)"
  using assms
proof (induction L bs rule: coalesce_list.induct)
  case (1 L)
  then show ?case by simp
next
  case (2 L b)
  then show ?case by simp
next
  case (3 L b c bs)
  show ?case
  proof (cases "fst b + sizeof_node L + snd b = fst c")
    case True
    have cnz: "fst c \<noteq> 0" using "3.prems"(3) by simp
    note mb = merge_blocks [OF "3.prems"(1,2) True cnz]
    have "\<forall>d\<in>set ((fst b, snd b + (snd c + sizeof_node L)) # bs). fst d \<noteq> 0"
      using "3.prems"(3) by simp
    from "3.IH"(1) [OF True "3.prems"(1) mb(2) this] True mb(1)
    show ?thesis by (simp add: total_size_def)
  next
    case False
    have "wf_blocks L (c # bs)" "\<forall>d\<in>set (c # bs). fst d \<noteq> 0"
      using "3.prems"(2,3) by simp_all
    from "3.IH"(2) [OF False "3.prems"(1) this] False
    show ?thesis by (simp add: total_size_def)
  qed
qed

lemma coalesce_list_length: "length (coalesce_list L bs) \<le> length bs"
  by (induction L bs rule: coalesce_list.induct) auto

lemma coalesce_list_total_le:
  assumes "layout_ok L" "wf_blocks L bs" "\<forall>b\<in>set bs. fst b \<noteq> 0"
  shows "total_size bs \<le> total_size (coalesce_list L bs)"
proof -
  have "length (coalesce_list L bs) * unat (sizeof_node L) \<le> length bs * unat (sizeof_node L)"
    using coalesce_list_length [of L bs] by simp
  with coalesce_list_total [OF assms] show ?thesis by linarith
qed

lemma coalesce_list_grows:
  assumes "layout_ok L" "wf_blocks L bs" "\<forall>b\<in>set bs. fst b \<noteq> 0"
  shows "\<forall>b'\<in>set (coalesce_list L bs). \<exists>b\<in>set bs. fst b = fst b' \<and> unat (snd b) \<le> unat (snd b')"
  using assms
proof (induction L bs rule: coalesce_list.induct)
  case (1 L)
  then show ?case by simp
next
  case (2 L b)
  then show ?case by simp
next
  case (3 L b c bs)
  show ?case
  proof (cases "fst b + sizeof_node L + snd b = fst c")
    case True
    have cnz: "fst c \<noteq> 0" using "3.prems"(3) by simp
    note mb = merge_blocks [OF "3.prems"(1,2) True cnz]
    have "\<forall>d\<in>set ((fst b, snd b + (snd c + sizeof_node L)) # bs). fst d \<noteq> 0"
      using "3.prems"(3) by simp
    from "3.IH"(1) [OF True "3.prems"(1) mb(2) this]
    have ih: "\<forall>b'\<in>set (coalesce_list L ((fst b, snd b + (snd c + sizeof_node L)) # bs)).
        \<exists>d\<in>set ((fst b, snd b + (snd c + sizeof_node L)) # bs).
          fst d = fst b' \<and> unat (snd d) \<le> unat (snd b')" .
    show ?thesis
    proof
      fix b' assume "b' \<in> set (coalesce_list L (b # c # bs))"
      then have "b' \<in> set (coalesce_list L ((fst b, snd b + (snd c + sizeof_node L)) # bs))"
        using True by simp
      with ih obtain d where d: "d \<in> set ((fst b, snd b + (snd c + sizeof_node L)) # bs)"
        "fst d = fst b'" "unat (snd d) \<le> unat (snd b')" by blast
      show "\<exists>x\<in>set (b # c # bs). fst x = fst b' \<and> unat (snd x) \<le> unat (snd b')"
      proof (cases "d = (fst b, snd b + (snd c + sizeof_node L))")
        case True
        with d mb(1) have "fst b = fst b'" "unat (snd b) \<le> unat (snd b')" by simp_all
        then show ?thesis by auto
      next
        case False
        with d show ?thesis by auto
      qed
    qed
  next
    case False
    have "wf_blocks L (c # bs)" "\<forall>d\<in>set (c # bs). fst d \<noteq> 0"
      using "3.prems"(2,3) by simp_all
    from "3.IH"(2) [OF False "3.prems"(1) this] False
    show ?thesis by auto
  qed
qed

subsection \<open>Disjoint footprints fit into the address space\<close>

lemma footprints_card:
  assumes "layout_ok L" "wf_blocks L bs" "\<forall>b\<in>set bs. fst b \<noteq> 0"
  shows "total_size bs + length bs * unat (sizeof_node L)
         = card (\<Union>b\<in>set bs. {block_lo b..<block_hi L b})
       \<and> (\<Union>b\<in>set bs. {block_lo b..<block_hi L b}) \<subseteq> {1..<2 ^ 64}"
  using assms(2,3)
proof (induction bs)
  case Nil
  then show ?case by (simp add: total_size_def)
next
  case (Cons b bs)
  let ?U = "\<Union>c\<in>set bs. {block_lo c..<block_hi L c}"
  from Cons have ih: "total_size bs + length bs * unat (sizeof_node L) = card ?U"
    "?U \<subseteq> {1..<2 ^ 64}" by simp_all
  have fin: "finite ?U" by simp
  have dis: "{block_lo b..<block_hi L b} \<inter> ?U = {}"
  proof -
    have "{block_lo b..<block_hi L b} \<inter> {block_lo c..<block_hi L c} = {}" if "c \<in> set bs" for c
    proof -
      have "apart L b c" using Cons.prems(1) that by (simp add: list_all_iff)
      then show ?thesis by (auto simp: apart_def)
    qed
    then show ?thesis by blast
  qed
  have len: "card {block_lo b..<block_hi L b} = unat (sizeof_node L) + unat (snd b)"
    by (simp add: block_lo_def block_hi_def)
  have "card ({block_lo b..<block_hi L b} \<union> ?U) = card {block_lo b..<block_hi L b} + card ?U"
    by (rule card_Un_disjoint [OF _ fin dis]) simp
  then have 1: "total_size (b # bs) + length (b # bs) * unat (sizeof_node L)
      = card (\<Union>c\<in>set (b # bs). {block_lo c..<block_hi L c})"
    using ih(1) len by (simp add: total_size_def)
  have "0 < block_lo b" using Cons.prems(2) by (simp add: block_lo_def unat_gt_0)
  moreover have "block_hi L b \<le> 2 ^ 64" using Cons.prems(1) by simp
  ultimately have "{block_lo b..<block_hi L b} \<subseteq> {1..<2 ^ 64}" by auto
  with ih(2) have 2: "(\<Union>c\<in>set (b # bs). {block_lo c..<block_hi L c}) \<subseteq> {1..<2 ^ 64}"
    by simp
  from 1 2 show ?case by blast
qed

lemma total_size_bound:
  assumes "layout_ok L" "wf_blocks L bs" "\<forall>b\<in>set bs. fst b \<noteq> 0"
  shows "total_size bs + length bs * unat (sizeof_node L) < 2 ^ 64"
proof -
  from footprints_card [OF assms]
  have "total_size bs + length bs * unat (sizeof_node L)
         = card (\<Union>b\<in>set bs. {block_lo b..<block_hi L b})"
    and sub: "(\<Union>b\<in>set bs. {block_lo b..<block_hi L b}) \<subseteq> {1..<2 ^ 64}" by simp_all
  moreover have "card (\<Union>b\<in>set bs. {block_lo b..<block_hi L b}) \<le> card {1::nat..<2 ^ 64}"
    by (rule card_mono [OF _ sub]) simp
  ultimately show ?thesis by simp
qed

lemma unat_sum_sizes:
  assumes "total_size bs < 2 ^ 64"
  shows "unat (sum_list (map snd bs) :: 64 word) = total_size bs"
  using assms
proof (induction bs)
  case Nil
  then show ?case by (simp add: total_size_def)
next
  case (Cons b bs)
  then have "total_size bs < 2 ^ 64" by (simp add: total_size_def)
  with Cons have "unat (sum_list (map snd bs) :: 64 word) = total_size bs" by simp
  with Cons.prems show ?case by (simp add: total_size_def unat_word_ariths)
qed

subsection \<open>\<^verbatim>\<open>my_free\<close> on a well-formed free list\<close>

lemma my_free_list:
  assumes ok: "layout_ok L"
    and magic: "get_magic (mem s) (q - sizeof_header L) = MAGIC L"
    and nz: "q - sizeof_header L \<noteq> 0"
    and seg: "list_seg (mem s) (head s) bs 0"
    and wf: "wf_blocks L ((q - sizeof_header L, get_size (mem s) (q - sizeof_header L)) # bs)"
  shows "\<exists>s'. my_free L s q = Some (Inr s') \<and> head s' = q - sizeof_header L \<and> os s' = os s
          \<and> list_seg (mem s') (head s')
               (coalesce_list L ((q - sizeof_header L, get_size (mem s) (q - sizeof_header L)) # bs)) 0
          \<and> unchanged_outside
               ((q - sizeof_header L, get_size (mem s) (q - sizeof_header L)) # bs) (mem s) (mem s')"
proof -
  let ?h = "q - sizeof_header L"
  let ?R = "get_size (mem s) ?h"
  let ?m1 = "set_size (mem s) ?h ?R"
  let ?m2 = "set_next ?m1 ?h (head s)"
  have far_h: "far ?h (fst d)" if "d \<in> set bs" for d
    using wf_blocks_Cons_far [OF ok wf that] by simp
  have fr: "\<forall>d\<in>set bs. get_size ?m2 (fst d) = get_size (mem s) (fst d)
                      \<and> get_next ?m2 (fst d) = get_next (mem s) (fst d)"
    using far_h by (simp add: get_set_far)
  have seg2: "list_seg ?m2 ?h ((?h, ?R) # bs) 0"
    using nz seg by (simp add: list_seg_frame [OF fr])
  from coalesce_refines [OF ok wf seg2]
  obtain m' where m': "coalesce L ?m2 ?h = Some m'"
    "list_seg m' ?h (coalesce_list L ((?h, ?R) # bs)) 0"
    "unchanged_outside ((?h, ?R) # bs) ?m2 m'"
    by blast
  have un: "unchanged_outside ((?h, ?R) # bs) (mem s) m'"
    unfolding unchanged_outside_def
  proof (intro allI impI)
    fix a assume a: "list_all (\<lambda>b. far (fst b) a) ((?h, ?R) # bs)"
    with m'(3) have "get_size m' a = get_size ?m2 a \<and> get_next m' a = get_next ?m2 a"
      by (simp add: unchanged_outside_def)
    moreover have "far ?h a" using a by simp
    ultimately show "get_size m' a = get_size (mem s) a \<and> get_next m' a = get_next (mem s) a"
      by (simp add: get_set_far)
  qed
  have "my_free L s q = Some (Inr (s\<lparr>mem := m', head := ?h\<rparr>))"
    using magic m'(1) by (simp add: my_free_def Let_def)
  with m'(2) un show ?thesis
    by (intro exI [of _ "s\<lparr>mem := m', head := ?h\<rparr>"]) simp
qed

lemma merge_blocks_footprint:
  assumes ok: "layout_ok L" and wf: "wf_blocks L (b # c # bs)"
    and adj: "fst b + sizeof_node L + snd b = fst c" and nz: "fst c \<noteq> 0"
  shows "block_lo (fst b, snd b + (snd c + sizeof_node L)) = block_lo b"
    and "block_hi L (fst b, snd b + (snd c + sizeof_node L)) = block_hi L c"
    and "block_lo c = block_hi L b"
proof -
  have hb: "block_hi L b \<le> 2 ^ 64" using wf by simp
  show lc: "block_lo c = block_hi L b"
    using adjacent_nat [OF hb adj nz] by (simp add: block_lo_def)
  show "block_lo (fst b, snd b + (snd c + sizeof_node L)) = block_lo b"
    by (simp add: block_lo_def)
  show "block_hi L (fst b, snd b + (snd c + sizeof_node L)) = block_hi L c"
    using merge_blocks(1) [OF ok wf adj nz] lc by (simp add: block_hi_def block_lo_def)
qed

lemma coalesce_list_covers:
  assumes "layout_ok L" "wf_blocks L bs" "\<forall>b\<in>set bs. fst b \<noteq> 0"
  shows "\<forall>b\<in>set bs. \<exists>b'\<in>set (coalesce_list L bs).
           block_lo b' \<le> block_lo b \<and> block_hi L b \<le> block_hi L b'"
  using assms
proof (induction L bs rule: coalesce_list.induct)
  case (1 L)
  then show ?case by simp
next
  case (2 L b)
  then show ?case by simp
next
  case (3 L b c bs)
  show ?case
  proof (cases "fst b + sizeof_node L + snd b = fst c")
    case True
    let ?n = "(fst b, snd b + (snd c + sizeof_node L))"
    have cnz: "fst c \<noteq> 0" using "3.prems"(3) by simp
    note mb = merge_blocks [OF "3.prems"(1,2) True cnz]
    note fp = merge_blocks_footprint [OF "3.prems"(1,2) True cnz]
    have "\<forall>d\<in>set (?n # bs). fst d \<noteq> 0"
      using "3.prems"(3) by simp
    from "3.IH"(1) [OF True "3.prems"(1) mb(2) this]
    have ih: "\<forall>d\<in>set (?n # bs). \<exists>b'\<in>set (coalesce_list L (?n # bs)).
        block_lo b' \<le> block_lo d \<and> block_hi L d \<le> block_hi L b'" .
    have res: "coalesce_list L (b # c # bs) = coalesce_list L (?n # bs)"
      using True by simp
    from ih obtain n' where n': "n' \<in> set (coalesce_list L (?n # bs))"
      "block_lo n' \<le> block_lo ?n" "block_hi L ?n \<le> block_hi L n'"
      by auto
    have lohi: "block_lo c \<le> block_hi L c" "block_lo b \<le> block_hi L b"
      by (simp_all add: block_lo_def block_hi_def)
    have n2: "block_lo n' \<le> block_lo b" "block_hi L c \<le> block_hi L n'"
      using n'(2,3) fp(1,2) by simp_all
    show ?thesis
      unfolding res
    proof
      fix d assume d: "d \<in> set (b # c # bs)"
      show "\<exists>b'\<in>set (coalesce_list L (?n # bs)).
              block_lo b' \<le> block_lo d \<and> block_hi L d \<le> block_hi L b'"
      proof (cases "d = b \<or> d = c")
        case True
        then have "block_lo n' \<le> block_lo d \<and> block_hi L d \<le> block_hi L n'"
          using n2 fp(3) lohi by (elim disjE; hypsubst; linarith)
        with n'(1) show ?thesis by blast
      next
        case False
        with d have "d \<in> set (?n # bs)" by simp
        with ih show ?thesis by blast
      qed
    qed
  next
    case False
    have "wf_blocks L (c # bs)" "\<forall>d\<in>set (c # bs). fst d \<noteq> 0"
      using "3.prems"(2,3) by simp_all
    from "3.IH"(2) [OF False "3.prems"(1) this] False
    show ?thesis by auto
  qed
qed

lemma total_size_append: "total_size (xs @ ys) = total_size xs + total_size ys"
  by (simp add: total_size_def)

lemma total_size_Cons: "total_size (b # bs) = unat (snd b) + total_size bs"
  by (simp add: total_size_def)

lemma available_memory_list:
  assumes "heap L s = (p, s')" "list_seg (mem s') p bs 0"
  shows "available_memory L s = Some (sum_list (map snd bs), s')"
  using assms(1) available_loop_sum [OF assms(2), of 0] by (simp add: available_memory_def)

lemma freed_block_wf:
  assumes ok: "layout_ok L" and eq: "sizeof_node L = sizeof_header L"
    and wf: "wf_blocks L (pre @ (B, S) # post)"
    and room: "unat R + unat (sizeof_header L) \<le> unat S"
  shows "wf_blocks L ((B, R) # pre @ (B + (R + sizeof_header L), S - (R + sizeof_header L)) # post)"
proof -
  let ?n = "(B + (R + sizeof_header L), S - (R + sizeof_header L))"
  have hi: "block_hi L (B, S) \<le> 2 ^ 64" using wf unfolding wf_blocks_append by simp
  note rb = remainder_block [OF ok hi room]
  have wfn: "wf_blocks L (pre @ ?n # post)" by (rule remainder_wf [OF ok wf room])
  have hR: "block_hi L (B, R) \<le> block_hi L (B, S)" "block_lo (B, R) = block_lo (B, S)"
    using room by (simp_all add: block_hi_def block_lo_def)
  have "apart L (B, R) d" if "d \<in> set pre \<union> set post" for d
  proof -
    from wf have la: "list_all (apart L (B, S)) post"
      and cross: "\<forall>x\<in>set pre. \<forall>y\<in>set ((B, S) # post). apart L x y"
      unfolding wf_blocks_append by simp_all
    have "apart L (B, S) d"
    proof (cases "d \<in> set pre")
      case True
      with cross have "apart L d (B, S)" by simp
      then show ?thesis by (rule apart_sym)
    next
      case False
      with that la show ?thesis by (simp add: list_all_iff)
    qed
    then show ?thesis using hR unfolding apart_def by linarith
  qed
  moreover have "apart L (B, R) ?n"
    using rb(2) by (simp add: apart_def block_hi_def block_lo_def eq)
  ultimately have "list_all (apart L (B, R)) (pre @ ?n # post)"
    by (auto simp add: list_all_iff)
  moreover have "block_hi L (B, R) \<le> 2 ^ 64" using hR(1) hi by linarith
  ultimately show ?thesis using wfn by simp
qed

subsection \<open>The run to the concrete states\<close>

lemma s_fresh_heap: "heap L0 s_uninit = (0x10000, s_fresh)"
  by (simp add: s_fresh_def mem_init_def heap_def L0_def s_uninit_def Let_def)

lemma mem_init_fields: "get_size mem_init 0x10000 = 4080" "get_next mem_init 0x10000 = 0"
  by (simp_all add: mem_init_def)

lemma mem_a_fields: "get_size mem_a 0x10074 = 3964" "get_next mem_a 0x10074 = 0"
  by (simp_all add: mem_a_def set_magic_eq get_set_far far_def)

lemma mem_ab_fields:
  "get_size mem_ab 0x100E8 = 3848" "get_next mem_ab 0x100E8 = 0"
  "get_size mem_ab 0x10000 = 100" "get_magic mem_ab 0x10000 = 1234567"
  by (simp_all add: mem_ab_def mem_a_def set_magic_eq get_magic_eq get_set_far far_def)

text \<open>The run that leads to \<open>s_two\<close>.\<close>

lemma s_two_reachable:
  "my_malloc L0 s_uninit 100 = Some (Inr (0x10010, s_a))"
  "my_malloc L0 s_a 100 = Some (Inr (0x10084, s_ab))"
  "my_free L0 s_ab 0x10010 = Some (Inr s_two)"
proof -
  have f1: "find_loop L0 (mem s_fresh) 100 0x10000 0 = Some (Some (0x10000, 0))"
    by (subst find_loop.simps) (simp add: s_fresh_def mem_init_fields fits_def L0_def)
  have sp1: "split L0 s_fresh 100 0 0x10000 = Inr (s_a, 0x10074, 0x10000)"
    by (simp add: split_def Let_def s_fresh_def s_a_def mem_a_def mem_init_fields L0_def
        get_set_far far_def)
  show "my_malloc L0 s_uninit 100 = Some (Inr (0x10010, s_a))"
    by (simp add: my_malloc_def find_free_def s_fresh_heap f1 sp1) (simp add: L0_def)
  have h2: "heap L0 s_a = (0x10074, s_a)" by (simp add: heap_def s_a_def)
  have f2: "find_loop L0 (mem s_a) 100 0x10074 0 = Some (Some (0x10074, 0))"
    by (subst find_loop.simps) (simp add: s_a_def mem_a_fields fits_def L0_def)
  have sp2: "split L0 s_a 100 0 0x10074 = Inr (s_ab, 0x100E8, 0x10074)"
    by (simp add: split_def Let_def s_a_def s_ab_def mem_ab_def mem_a_fields L0_def
        get_set_far far_def)
  show "my_malloc L0 s_a 100 = Some (Inr (0x10084, s_ab))"
    by (simp add: my_malloc_def find_free_def h2 f2 sp2) (simp add: L0_def)
  have c: "coalesce L0 mem_two 0x10000 = Some mem_two"
    by (subst coalesce.simps, simp add: mem_two_fields L0_def Let_def,
        subst coalesce.simps, simp add: mem_two_fields L0_def Let_def)
  have "0x10010 - sizeof_header L0 = 0x10000" "MAGIC L0 = 1234567" by (simp_all add: L0_def)
  then show "my_free L0 s_ab 0x10010 = Some (Inr s_two)"
    by (simp add: my_free_def Let_def s_ab_def mem_ab_fields mem_two_def [symmetric] c)
      (simp add: s_two_def)
qed

section \<open>The claims\<close>

text \<open>
  C1. In \<^verbatim>\<open>split\<close> the size of the remainder is the 64-bit difference
  \<open>original->size - actual_size\<close>, with \<open>actual_size = R + sizeof(header_t)\<close>. When the free
  size equals \<open>actual_size\<close> the difference is 0 and the remainder is a zero-size node; the
  difference wraps around, to \<open>2 ^ 64 - (actual_size - S)\<close>, when the free size \<open>S\<close> is
  strictly less than \<open>actual_size\<close>, and only then. (The header at the block, the remainder
  descriptor and the \<open>next\<close> field of the predecessor are assumed not to overlap.)
\<close>

theorem split_remainder_size:
  assumes "free_block \<noteq> 0"
    and "far free_block (free_block + (R + sizeof_header L))"
    and "previous = 0 \<or> disj64 (previous + 8) (free_block + (R + sizeof_header L))"
  shows "\<exists>s'. split L s R previous free_block
              = Inr (s', free_block + (R + sizeof_header L), free_block)
     \<and> get_size (mem s') (free_block + (R + sizeof_header L))
           = get_size (mem s) free_block - (R + sizeof_header L)
     \<and> (get_size (mem s) free_block = R + sizeof_header L
          \<longrightarrow> get_size (mem s') (free_block + (R + sizeof_header L)) = 0)
     \<and> (get_size (mem s) free_block < R + sizeof_header L
          \<longrightarrow> unat (get_size (mem s') (free_block + (R + sizeof_header L)))
              = 2 ^ 64 - (unat (R + sizeof_header L) - unat (get_size (mem s) free_block)))
     \<and> (R + sizeof_header L \<le> get_size (mem s) free_block
          \<longrightarrow> unat (get_size (mem s') (free_block + (R + sizeof_header L)))
              = unat (get_size (mem s) free_block) - unat (R + sizeof_header L))"
proof -
  let ?A = "R + sizeof_header L"
  let ?S = "get_size (mem s) free_block"
  from split_result [OF assms(1), of L s R previous]
  obtain s' where s': "split L s R previous free_block = Inr (s', free_block + ?A, free_block)"
    and m: "mem s' =
              set_magic
                (set_size
                  (if previous = 0
                   then set_next (set_size (mem s) (free_block + ?A) (?S - ?A)) (free_block + ?A)
                          (get_next (set_size (mem s) (free_block + ?A) (?S - ?A)) free_block)
                   else set_next
                          (set_next (set_size (mem s) (free_block + ?A) (?S - ?A)) (free_block + ?A)
                             (get_next (set_size (mem s) (free_block + ?A) (?S - ?A)) free_block))
                          previous (free_block + ?A))
                  free_block R)
                free_block (MAGIC L)"
    by blast
  have sz: "get_size (mem s') (free_block + ?A) = ?S - ?A"
  proof (cases "previous = 0")
    case True
    then show ?thesis
      unfolding m using assms(2) by (simp add: set_magic_eq get_set_far)
  next
    case False
    with assms(3) have "disj64 (previous + 8) (free_block + ?A)" by simp
    with False show ?thesis
      unfolding m using assms(2) by (simp add: set_magic_eq get_set_far get_size_set_next_disj)
  qed
  have "unat (?S - ?A) = 2 ^ 64 - (unat ?A - unat ?S)" if "?S < ?A"
  proof -
    have "unat ?S < unat ?A" using that by (simp add: word_less_nat_alt)
    moreover have "unat ?A < 2 ^ 64" using unsigned_less [of ?A, where ?'a = nat] by simp
    ultimately show ?thesis by (simp add: unat_sub_if')
  qed
  moreover have "unat (?S - ?A) = unat ?S - unat ?A" if "?A \<le> ?S"
    using that by (simp add: unat_sub_if' word_le_nat_alt)
  ultimately show ?thesis using s' sz by auto
qed

theorem split_remainder_size_witness:
  "(0x10000 :: addr) \<noteq> 0 \<and> far 0x10000 (0x10000 + (92 + sizeof_header L0))
   \<and> get_size (mem s_two) 0x10000 < 92 + sizeof_header L0
   \<and> (\<exists>s'. split L0 s_two 92 0 0x10000 = Inr (s', 0x1006C, 0x10000)
          \<and> unat (get_size (mem s') 0x1006C) = 2 ^ 64 - 8)"
proof -
  have 1: "(0x10000 :: addr) \<noteq> 0" by simp
  have 2: "far 0x10000 (0x10000 + (92 + sizeof_header L0))"
    by (simp add: far_def L0_def)
  have 3: "(0 :: addr) = 0 \<or> disj64 (0 + 8) (0x10000 + (92 + sizeof_header L0))" by simp
  have 4: "get_size (mem s_two) 0x10000 < 92 + sizeof_header L0"
    by (simp add: s_two_def mem_two_fields L0_def)
  have 5: "get_size (mem s_two) 0x10000 = 100" "92 + sizeof_header L0 = 108"
    "(0x10000 :: addr) + 108 = 0x1006C"
    by (simp_all add: s_two_def mem_two_fields L0_def)
  from split_remainder_size [OF 1 2 3, of s_two] 4
  have "\<exists>s'. split L0 s_two 92 0 0x10000 = Inr (s', 0x1006C, 0x10000)
          \<and> unat (get_size (mem s') 0x1006C) = 2 ^ 64 - 8"
    unfolding 5 by simp blast
  with 1 2 4 show ?thesis by blast
qed

text \<open>
  C1, as stated, fails: in \<open>s_two\<close> a request of 84 bytes finds the first free block, whose
  free size 100 is exactly \<open>84 + sizeof(header_t)\<close>, and the remainder is written with the
  size 0.
\<close>

theorem split_exact_fit_counterexample:
  "get_size (mem s_two) 0x10000 = 84 + sizeof_header L0
   \<and> find_free L0 s_two 84 (0, 0) = Some ((0x10000, 0), s_two)
   \<and> split L0 s_two 84 0 0x10000 = Inr (s_exact, 0x10064, 0x10000)
   \<and> get_size (mem s_exact) 0x10064 = 0"
proof -
  have 1: "get_size (mem s_two) 0x10000 = 84 + sizeof_header L0"
    by (simp add: s_two_def mem_two_fields L0_def)
  have "fits L0 (get_size (mem s_two) 0x10000) 84"
    by (simp add: s_two_def mem_two_fields L0_def fits_def)
  from find_loop_found [of "mem s_two" "0x10000" "[]" "0x10000" L0 84 0, OF _ _ this]
  have 2: "find_free L0 s_two 84 (0, 0) = Some ((0x10000, 0), s_two)"
    by (simp add: find_free_def heap_def s_two_def)
  have 3: "split L0 s_two 84 0 0x10000 = Inr (s_exact, 0x10064, 0x10000)"
    by (simp add: split_def Let_def s_two_def s_exact_def mem_two_fields L0_def
        get_set_far far_def)
  have 4: "get_size (mem s_exact) 0x10064 = 0"
    by (simp add: s_exact_def set_magic_eq get_set_far far_def)
  from 1 2 3 4 show ?thesis by blast
qed

lemma fits_sums:
  assumes "unat R + unat (sizeof_header L) < 2 ^ 64" and "unat S + unat (sizeof_node L) < 2 ^ 64"
  shows "fits L S R \<longleftrightarrow> unat R + unat (sizeof_header L) \<le> unat S + unat (sizeof_node L)"
  using assms by (simp add: fits_def word_le_nat_alt unat_word_ariths)

text \<open>
  Without wrap-around \<^verbatim>\<open>find_free\<close> is first-fit on the footprints: when neither
  \<open>R + sizeof(header_t)\<close> nor any \<open>S + sizeof(node_t)\<close> on the way exceeds the 64 bits of a
  \<^verbatim>\<open>size_t\<close>, it skips the blocks with \<open>S + sizeof(node_t) < R + sizeof(header_t)\<close> and returns
  the first block with \<open>S + sizeof(node_t) \<ge> R + sizeof(header_t)\<close>, together with its list
  predecessor, or \<^verbatim>\<open>NULL\<close> when that block is the head.
\<close>

lemma find_free_first_fit_sums:
  assumes "heap L s = (p, s')"
    and "list_seg (mem s') p pre B" and "B \<noteq> 0"
    and "unat R + unat (sizeof_header L) < 2 ^ 64"
    and "\<forall>b\<in>set pre. unat (snd b) + unat (sizeof_node L) < unat R + unat (sizeof_header L)"
    and "unat R + unat (sizeof_header L) \<le> unat (get_size (mem s') B) + unat (sizeof_node L)"
    and "unat (get_size (mem s') B) + unat (sizeof_node L) < 2 ^ 64"
  shows "find_free L s R fp0 = Some ((B, if pre = [] then 0 else fst (last pre)), s')"
proof -
  have "\<not> fits L (snd b) R" if "b \<in> set pre" for b
  proof -
    from assms(5) that
    have lt: "unat (snd b) + unat (sizeof_node L) < unat R + unat (sizeof_header L)" by blast
    with assms(4) have "unat (snd b) + unat (sizeof_node L) < 2 ^ 64" by linarith
    from fits_sums [OF assms(4) this] lt show ?thesis by simp
  qed
  then have nofit: "\<forall>b\<in>set pre. \<not> fits L (snd b) R" by blast
  have fit: "fits L (get_size (mem s') B) R"
    using fits_sums [OF assms(4,7)] assms(6) by simp
  from assms(1) find_loop_found [OF assms(2,3) fit nofit, of 0]
  show ?thesis by (simp add: find_free_def)
qed

lemma find_free_first_fit_sums_example:
  "find_free L0 s_two 200 (0, 0) = Some ((0x100E8, 0x10000), s_two)"
proof -
  have 1: "heap L0 s_two = (0x10000, s_two)"
    by (simp add: heap_def s_two_def)
  have 2: "list_seg (mem s_two) 0x10000 [(0x10000, 100)] 0x100E8"
    by (simp add: s_two_def mem_two_fields)
  have 3: "(0x100E8 :: addr) \<noteq> 0" by simp
  have g: "get_size (mem s_two) 0x100E8 = 3848"
    by (simp add: s_two_def mem_two_fields)
  have 4: "unat (200 :: 64 word) + unat (sizeof_header L0) < 2 ^ 64"
    by (simp add: L0_def)
  have 5: "\<forall>b\<in>set [(0x10000 :: addr, 100 :: 64 word)].
      unat (snd b) + unat (sizeof_node L0) < unat (200 :: 64 word) + unat (sizeof_header L0)"
    by (simp add: L0_def)
  have 6: "unat (200 :: 64 word) + unat (sizeof_header L0)
      \<le> unat (get_size (mem s_two) 0x100E8) + unat (sizeof_node L0)"
    by (simp add: g L0_def)
  have 7: "unat (get_size (mem s_two) 0x100E8) + unat (sizeof_node L0) < 2 ^ 64"
    by (simp add: g L0_def)
  from find_free_first_fit_sums [OF 1 2 3 4 5 6 7, of "(0, 0)"] show ?thesis by simp
qed

text \<open>
  C2. \<^verbatim>\<open>find_free\<close> is to select the first block of the free list whose free size \<open>S\<close>
  satisfies \<open>S + sizeof(node_t) \<ge> R + sizeof(header_t)\<close>. The code compares the two sums
  modulo \<open>2 ^ 64\<close>: in \<open>s_two\<close>, for the request \<open>R = 2 ^ 64 - 1\<close>, the sum
  \<open>R + sizeof(header_t)\<close> wraps around to 15, and \<^verbatim>\<open>find_free\<close> selects the head block, whose
  free size is 100: its 116 bytes are far less than the \<open>2 ^ 64 + 15\<close> of the request.
\<close>

theorem find_free_size_overflow:
  "find_free L0 s_two 0xFFFFFFFFFFFFFFFF (0, 0) = Some ((0x10000, 0), s_two)
   \<and> get_size (mem s_two) 0x10000 = 100
   \<and> unat (100 :: 64 word) + unat (sizeof_node L0)
       < unat (0xFFFFFFFFFFFFFFFF :: 64 word) + unat (sizeof_header L0)
   \<and> unat (0xFFFFFFFFFFFFFFFF :: 64 word) + unat (sizeof_header L0) = 2 ^ 64 + 15"
proof -
  have h: "heap L0 s_two = (0x10000, s_two)"
    by (simp add: heap_def s_two_def)
  have g: "get_size (mem s_two) 0x10000 = 100"
    by (simp add: s_two_def mem_two_fields)
  have f: "find_loop L0 (mem s_two) 0xFFFFFFFFFFFFFFFF 0x10000 0 = Some (Some (0x10000, 0))"
    by (subst find_loop.simps) (simp add: g fits_def L0_def)
  have 1: "find_free L0 s_two 0xFFFFFFFFFFFFFFFF (0, 0) = Some ((0x10000, 0), s_two)"
    by (simp add: find_free_def h f)
  have 2: "unat (100 :: 64 word) + unat (sizeof_node L0)
       < unat (0xFFFFFFFFFFFFFFFF :: 64 word) + unat (sizeof_header L0)"
    by (simp add: L0_def)
  have 3: "unat (0xFFFFFFFFFFFFFFFF :: 64 word) + unat (sizeof_header L0) = 2 ^ 64 + 15"
    by (simp add: L0_def)
  from 1 g 2 3 show ?thesis by blast
qed




text \<open>
  C4. A successful allocation of \<open>R\<close> bytes from the first fitting block \<open>B\<close> of a well-formed
  free list, of free size \<open>S\<close> strictly greater than \<open>R + sizeof(header_t)\<close>: the pointer
  returned is \<open>B + sizeof(header_t)\<close>; the remainder at \<open>B + R + sizeof(header_t)\<close> has size
  \<open>S - (R + sizeof(header_t))\<close> and the old successor of \<open>B\<close>; it is the new head when \<open>B\<close> was
  the head, and the successor of the predecessor of \<open>B\<close> otherwise; the header at \<open>B\<close> has the
  size \<open>R\<close> and the sentinel; the free list is the old one with the remainder in the place of
  \<open>B\<close>.
\<close>

theorem my_malloc_splits:
  assumes "layout_ok L" and "heap L s = (p, s1)"
    and "wf_blocks L (pre @ (B, S) # post)"
    and "list_seg (mem s1) p (pre @ (B, S) # post) 0"
    and "\<forall>b\<in>set pre. \<not> fits L (snd b) R"
    and "unat R + unat (sizeof_header L) < unat S"
  shows "\<exists>s'. my_malloc L s R = Some (Inr (B + sizeof_header L, s'))
          \<and> head s' = (if pre = [] then B + (R + sizeof_header L) else p)
          \<and> os s' = os s1
          \<and> list_seg (mem s') (head s')
                (pre @ (B + (R + sizeof_header L), S - (R + sizeof_header L)) # post) 0
          \<and> get_size (mem s') B = R \<and> get_magic (mem s') B = MAGIC L
          \<and> (pre \<noteq> [] \<longrightarrow> get_next (mem s') (fst (last pre)) = B + (R + sizeof_header L))
          \<and> get_next (mem s') (B + (R + sizeof_header L)) = get_next (mem s1) B"
proof -
  from assms(6) have "unat R + unat (sizeof_header L) \<le> unat S" by simp
  from my_malloc_list [OF assms(1-5) this] show ?thesis .
qed

theorem my_malloc_splits_witness:
  "layout_ok L0 \<and> heap L0 s_two = (0x10000, s_two)
   \<and> wf_blocks L0 [(0x10000, 100), (0x100E8, 3848)]
   \<and> list_seg (mem s_two) 0x10000 [(0x10000, 100), (0x100E8, 3848)] 0
   \<and> \<not> fits L0 100 200
   \<and> unat (200 :: 64 word) + unat (sizeof_header L0) < unat (3848 :: 64 word)
   \<and> (\<exists>s'. my_malloc L0 s_two 200 = Some (Inr (0x100F8, s'))
          \<and> head s' = 0x10000
          \<and> list_seg (mem s') (head s') [(0x10000, 100), (0x101C0, 3632)] 0
          \<and> get_size (mem s') 0x100E8 = 200 \<and> get_magic (mem s') 0x100E8 = 1234567
          \<and> get_next (mem s') 0x10000 = 0x101C0
          \<and> get_next (mem s') 0x101C0 = 0)"
proof -
  have 4: "list_seg (mem s_two) 0x10000 ([(0x10000, 100)] @ (0x100E8, 3848) # []) 0"
    by (simp add: s_two_def mem_two_fields)
  have 3: "wf_blocks L0 ([(0x10000, 100)] @ (0x100E8, 3848) # [])"
    using s_two_wf by simp
  have 5: "\<forall>b\<in>set [(0x10000 :: addr, 100 :: 64 word)]. \<not> fits L0 (snd b) 200"
    by (simp add: fits_def L0_def)
  have 6: "unat (200 :: 64 word) + unat (sizeof_header L0) < unat (3848 :: 64 word)"
    by (simp add: L0_def)
  have v: "sizeof_header L0 = 16" "MAGIC L0 = 1234567" "get_next (mem s_two) 0x100E8 = 0"
    by (simp_all add: L0_def s_two_def mem_two_fields)
  from my_malloc_splits [OF L0_ok s_two_heap 3 4 5 6]
  have "\<exists>s'. my_malloc L0 s_two 200 = Some (Inr (0x100F8, s'))
          \<and> head s' = 0x10000
          \<and> list_seg (mem s') (head s') [(0x10000, 100), (0x101C0, 3632)] 0
          \<and> get_size (mem s') 0x100E8 = 200 \<and> get_magic (mem s') 0x100E8 = 1234567
          \<and> get_next (mem s') 0x10000 = 0x101C0
          \<and> get_next (mem s') 0x101C0 = 0"
    unfolding v by simp blast
  moreover have "\<not> fits L0 100 200" by (simp add: fits_def L0_def)
  moreover have "list_seg (mem s_two) 0x10000 [(0x10000, 100), (0x100E8, 3848)] 0"
    by (simp add: s_two_def mem_two_fields)
  ultimately show ?thesis
    using L0_ok s_two_heap s_two_wf 6 by blast
qed

text \<open>
  C5. \<^verbatim>\<open>my_free\<close> reads the tag of the header at \<open>pointer - sizeof(header_t)\<close>. When the tag
  is not the sentinel the run ends in the failed assertion, in the state the call started
  in; when it is the sentinel the call does not end in a failed assertion.
\<close>

theorem my_free_tag_check:
  "(get_magic (mem s) (p - sizeof_header L) \<noteq> MAGIC L
      \<longrightarrow> my_free L s p = Some (Inl (AssertionFailed, s)))
   \<and> (get_magic (mem s) (p - sizeof_header L) = MAGIC L
      \<longrightarrow> (\<forall>e. my_free L s p \<noteq> Some (Inl e)))"
  by (auto simp add: my_free_def Let_def split: option.splits)

theorem my_free_tag_check_witness:
  "get_magic (mem s_two) (0x10010 - sizeof_header L0) \<noteq> MAGIC L0
   \<and> my_free L0 s_two 0x10010 = Some (Inl (AssertionFailed, s_two))
   \<and> get_magic (mem s_two) (0x10084 - sizeof_header L0) = MAGIC L0
   \<and> my_free L0 s_two 0x10084 \<noteq> Some (Inl (AssertionFailed, s_two))"
proof -
  have 1: "get_magic (mem s_two) (0x10010 - sizeof_header L0) \<noteq> MAGIC L0"
    by (simp add: L0_def s_two_def get_magic_eq mem_two_fields)
  have 2: "get_magic (mem s_two) (0x10084 - sizeof_header L0) = MAGIC L0"
    by (simp add: L0_def s_two_def mem_two_fields)
  from my_free_tag_check [of s_two "0x10010" L0] my_free_tag_check [of s_two "0x10084" L0] 1 2
  show ?thesis by simp
qed

text \<open>
  C6. On a well-formed free list that starts at the block given to it, \<^verbatim>\<open>coalesce\<close> returns,
  and the list it leaves is the result of the walk \<open>coalesce_list\<close>: a block that ends where
  its list successor starts absorbs the size and the descriptor of the successor, takes its
  \<open>next\<close>, and is examined again; otherwise the walk moves to the successor; it stops at the
  last block. Merging is forward only: the start block stays the first block; every block
  of the result is a block of the list at its old address, with a size that did not shrink;
  every block of the list lies within a block of the result that starts at or before it, so
  that a block is only ever absorbed by a block that physically precedes it, and no block
  that physically precedes the start block is merged into it; no descriptor outside the list
  that starts at the given block is changed.
\<close>

theorem coalesce_forward_only:
  assumes "layout_ok L" and "wf_blocks L bs" and "list_seg m p bs 0"
  shows "\<exists>m'. coalesce L m p = Some m'
     \<and> list_seg m' p (coalesce_list L bs) 0
     \<and> unchanged_outside bs m m'
     \<and> (bs \<noteq> [] \<longrightarrow> fst (hd (coalesce_list L bs)) = p)
     \<and> (\<forall>b'\<in>set (coalesce_list L bs).
           \<exists>b\<in>set bs. fst b = fst b' \<and> unat (snd b) \<le> unat (snd b'))
     \<and> (\<forall>b\<in>set bs. \<exists>b'\<in>set (coalesce_list L bs).
           block_lo b' \<le> block_lo b \<and> block_hi L b \<le> block_hi L b')"
proof -
  have nn: "\<forall>b\<in>set bs. fst b \<noteq> 0" by (rule list_seg_nonnull [OF assms(3)])
  have "bs \<noteq> [] \<longrightarrow> fst (hd (coalesce_list L bs)) = p"
    using coalesce_list_hd [of bs L] assms(3) by (cases bs) auto
  with coalesce_refines [OF assms] coalesce_list_grows [OF assms(1,2) nn]
    coalesce_list_covers [OF assms(1,2) nn]
  show ?thesis by blast
qed

theorem coalesce_forward_only_witness:
  "layout_ok L0 \<and> wf_blocks L0 [(0x10074, 100), (0x100E8, 3848)]
   \<and> list_seg mem_adj 0x10074 [(0x10074, 100), (0x100E8, 3848)] 0
   \<and> (\<exists>m'. coalesce L0 mem_adj 0x10074 = Some m' \<and> list_seg m' 0x10074 [(0x10074, 3964)] 0)"
proof -
  have 1: "layout_ok L0" by (simp add: layout_ok_def L0_def)
  have 2: "wf_blocks L0 [(0x10074, 100), (0x100E8, 3848)]"
    by (simp add: block_hi_def block_lo_def apart_def L0_def)
  have 3: "list_seg mem_adj 0x10074 [(0x10074, 100), (0x100E8, 3848)] 0"
    by (simp add: mem_adj_def get_set_far far_def mem_ab_fields)
  have 4: "coalesce_list L0 [(0x10074, 100), (0x100E8, 3848)] = [(0x10074, 3964)]"
    by (simp add: L0_def)
  from coalesce_forward_only [OF 1 2 3]
  have "\<exists>m'. coalesce L0 mem_adj 0x10074 = Some m' \<and> list_seg m' 0x10074 [(0x10074, 3964)] 0"
    unfolding 4 by blast
  with 1 2 3 show ?thesis by blast
qed

text \<open>
  C7. A release whose tag check passes, on a well-formed free list: the freed block becomes a
  free descriptor linked in front of the list that started at the old head, the coalescer
  runs from it, and the new head is that block. When the freed block does not end where the
  old head starts, its \<open>next\<close> is the old head.
\<close>

theorem my_free_new_head:
  assumes "layout_ok L"
    and "get_magic (mem s) (q - sizeof_header L) = MAGIC L"
    and "q - sizeof_header L \<noteq> 0"
    and "list_seg (mem s) (head s) bs 0"
    and "wf_blocks L ((q - sizeof_header L, get_size (mem s) (q - sizeof_header L)) # bs)"
  shows "\<exists>s'. my_free L s q = Some (Inr s') \<and> head s' = q - sizeof_header L \<and> os s' = os s
          \<and> list_seg (mem s') (head s')
               (coalesce_list L ((q - sizeof_header L, get_size (mem s) (q - sizeof_header L)) # bs)) 0
          \<and> (q - sizeof_header L + sizeof_node L + get_size (mem s) (q - sizeof_header L) \<noteq> head s
               \<longrightarrow> get_next (mem s') (head s') = head s)"
proof -
  let ?h = "q - sizeof_header L"
  let ?R = "get_size (mem s) ?h"
  from my_free_list [OF assms]
  obtain s' where s': "my_free L s q = Some (Inr s')" "head s' = ?h" "os s' = os s"
    "list_seg (mem s') (head s') (coalesce_list L ((?h, ?R) # bs)) 0"
    by blast
  have seg': "list_seg (mem s') ?h (coalesce_list L ((?h, ?R) # bs)) 0"
    using s'(4) unfolding s'(2) .
  have "get_next (mem s') ?h = head s" if na: "?h + sizeof_node L + ?R \<noteq> head s"
  proof (cases bs)
    case Nil
    with seg' assms(4) show ?thesis by simp
  next
    case (Cons c cs)
    then have hc: "head s = fst c" using assms(4) by simp
    have "coalesce_list L ((?h, ?R) # bs) = (?h, ?R) # coalesce_list L (c # cs)"
      using na hc Cons by simp
    with seg' have "list_seg (mem s') (get_next (mem s') ?h) (coalesce_list L (c # cs)) 0"
      by simp
    moreover have "coalesce_list L (c # cs) \<noteq> []" "fst (hd (coalesce_list L (c # cs))) = fst c"
      using coalesce_list_hd [of "c # cs" L] by simp_all
    ultimately show ?thesis
      unfolding hc by (cases "coalesce_list L (c # cs)") auto
  qed
  then have "?h + sizeof_node L + ?R \<noteq> head s \<longrightarrow> get_next (mem s') (head s') = head s"
    unfolding s'(2) by blast
  with s' show ?thesis by blast
qed

theorem my_free_new_head_witness:
  "layout_ok L0 \<and> get_magic (mem s_two) (0x10084 - sizeof_header L0) = MAGIC L0
   \<and> 0x10084 - sizeof_header L0 \<noteq> 0
   \<and> list_seg (mem s_two) (head s_two) [(0x10000, 100), (0x100E8, 3848)] 0
   \<and> wf_blocks L0 [(0x10074, 100), (0x10000, 100), (0x100E8, 3848)]
   \<and> (\<exists>s'. my_free L0 s_two 0x10084 = Some (Inr s') \<and> head s' = 0x10074
          \<and> list_seg (mem s') (head s') [(0x10074, 100), (0x10000, 100), (0x100E8, 3848)] 0
          \<and> get_next (mem s') (head s') = 0x10000)"
proof -
  have 1: "layout_ok L0" by (simp add: layout_ok_def L0_def)
  have h: "0x10084 - sizeof_header L0 = 0x10074" "sizeof_node L0 = 16" by (simp_all add: L0_def)
  have g: "get_size (mem s_two) 0x10074 = 100" "head s_two = 0x10000"
    by (simp_all add: s_two_def mem_two_fields)
  have 2: "get_magic (mem s_two) (0x10084 - sizeof_header L0) = MAGIC L0"
    by (simp add: L0_def s_two_def mem_two_fields)
  have 3: "0x10084 - sizeof_header L0 \<noteq> 0" by (simp add: L0_def)
  have 4: "list_seg (mem s_two) (head s_two) [(0x10000, 100), (0x100E8, 3848)] 0"
    by (rule s_two_list)
  have 5: "wf_blocks L0 [(0x10074, 100), (0x10000, 100), (0x100E8, 3848)]"
    by (simp add: block_hi_def block_lo_def apart_def L0_def)
  have w5: "wf_blocks L0 ((0x10084 - sizeof_header L0,
      get_size (mem s_two) (0x10084 - sizeof_header L0)) # [(0x10000, 100), (0x100E8, 3848)])"
    unfolding h g using 5 .
  have 6: "coalesce_list L0 [(0x10074, 100), (0x10000, 100), (0x100E8, 3848)]
      = [(0x10074, 100), (0x10000, 100), (0x100E8, 3848)]"
    by (simp add: L0_def)
  from my_free_new_head [OF 1 2 3 4 w5]
  have "\<exists>s'. my_free L0 s_two 0x10084 = Some (Inr s') \<and> head s' = 0x10074
          \<and> list_seg (mem s') (head s') [(0x10074, 100), (0x10000, 100), (0x100E8, 3848)] 0
          \<and> get_next (mem s') (head s') = 0x10000"
    unfolding h g 6 by simp blast
  with 1 2 3 4 5 show ?thesis by blast
qed

text \<open>
  C8. On a well-formed free list, with \<open>sizeof(node_t) = sizeof(header_t)\<close>, an allocation
  that takes a block of free size at least \<open>R + sizeof(header_t)\<close> and is released at once:
  \<^verbatim>\<open>available_memory()\<close> after the release is at least its value before the allocation when
  the block was the head of the free list, and at least that value less \<open>sizeof(header_t)\<close>
  when the block was further down the list.
\<close>

theorem malloc_free_available:
  assumes "layout_ok L" and "sizeof_node L = sizeof_header L"
    and "heap L s = (p, s1)"
    and "wf_blocks L (pre @ (B, S) # post)"
    and "list_seg (mem s1) p (pre @ (B, S) # post) 0"
    and "\<forall>b\<in>set pre. \<not> fits L (snd b) R"
    and "unat R + unat (sizeof_header L) \<le> unat S"
  shows "\<exists>q s2 s3 n0 n1.
           my_malloc L s R = Some (Inr (q, s2)) \<and> my_free L s2 q = Some (Inr s3)
         \<and> available_memory L s = Some (n0, s1) \<and> available_memory L s3 = Some (n1, s3)
         \<and> unat n0 \<le> unat n1 + unat (sizeof_header L)
         \<and> (pre = [] \<longrightarrow> n0 \<le> n1)"
proof -
  note ok = assms(1) and eq = assms(2) and hp = assms(3) and wf = assms(4)
    and seg = assms(5) and nofit = assms(6) and room = assms(7)
  let ?A = "R + sizeof_header L"
  let ?n = "(B + ?A, S - ?A)"
  let ?bs0 = "pre @ (B, S) # post"
  let ?bs2 = "(B, R) # pre @ ?n # post"
  from seg have Bnz: "B \<noteq> 0" by (auto simp add: list_seg_append)
  have hi: "block_hi L (B, S) \<le> 2 ^ 64" using wf unfolding wf_blocks_append by simp
  note rb = remainder_block [OF ok hi room]
  from my_malloc_list [OF ok hp wf seg nofit room]
  obtain s2 where s2: "my_malloc L s R = Some (Inr (B + sizeof_header L, s2))"
    "list_seg (mem s2) (head s2) (pre @ ?n # post) 0"
    "get_size (mem s2) B = R" "get_magic (mem s2) B = MAGIC L"
    by blast
  have h: "B + sizeof_header L - sizeof_header L = B" by simp
  have wf2: "wf_blocks L ?bs2" by (rule freed_block_wf [OF ok eq wf room])
  from my_free_list [of L s2 "B + sizeof_header L" "pre @ ?n # post", unfolded h s2(3),
      OF ok s2(4) Bnz s2(2) wf2]
  obtain s3 where s3: "my_free L s2 (B + sizeof_header L) = Some (Inr s3)" "head s3 = B"
    "list_seg (mem s3) (head s3) (coalesce_list L ?bs2) 0"
    by blast
  have hp3: "heap L s3 = (B, s3)"
    using heap_initialised [of s3 L] Bnz s3(2) by simp
  have a0: "available_memory L s = Some (sum_list (map snd ?bs0), s1)"
    by (rule available_memory_list [OF hp seg])
  have a1: "available_memory L s3 = Some (sum_list (map snd (coalesce_list L ?bs2)), s3)"
    by (rule available_memory_list [OF hp3 s3(3) [unfolded s3(2)]])
  have nn0: "\<forall>b\<in>set ?bs0. fst b \<noteq> 0" by (rule list_seg_nonnull [OF seg])
  have nn2: "\<forall>b\<in>set ?bs2. fst b \<noteq> 0"
    using list_seg_nonnull [OF s2(2)] Bnz by simp
  have t0: "total_size ?bs0 < 2 ^ 64"
    using total_size_bound [OF ok wf nn0] by linarith
  have t2: "total_size (coalesce_list L ?bs2) < 2 ^ 64"
    using total_size_bound [OF ok wf2 nn2] coalesce_list_total [OF ok wf2 nn2] by linarith
  have u0: "unat (sum_list (map snd ?bs0) :: 64 word) = total_size ?bs0"
    by (rule unat_sum_sizes [OF t0])
  have u1: "unat (sum_list (map snd (coalesce_list L ?bs2)) :: 64 word)
      = total_size (coalesce_list L ?bs2)"
    by (rule unat_sum_sizes [OF t2])
  have "total_size ?bs2 + unat (sizeof_header L) = total_size ?bs0"
    using room by (simp add: total_size_append total_size_Cons rb(3))
  moreover have "total_size ?bs2 \<le> total_size (coalesce_list L ?bs2)"
    by (rule coalesce_list_total_le [OF ok wf2 nn2])
  ultimately have le: "total_size ?bs0 \<le> total_size (coalesce_list L ?bs2) + unat (sizeof_header L)"
    by linarith
  have hd: "total_size ?bs0 \<le> total_size (coalesce_list L ?bs2)" if "pre = []"
  proof -
    have "B + sizeof_node L + R = B + ?A" by (simp add: eq add.commute)
    moreover have "R + (S - ?A + sizeof_node L) = S" by (simp add: eq)
    ultimately have "coalesce_list L ?bs2 = coalesce_list L ?bs0"
      using that by simp
    then show ?thesis
      using coalesce_list_total_le [OF ok wf nn0] by simp
  qed
  show ?thesis
    using s2(1) s3(1) a0 a1 le hd unfolding word_le_nat_alt u0 [symmetric] u1 [symmetric]
    by blast
qed

theorem malloc_free_available_witness:
  "layout_ok L0 \<and> sizeof_node L0 = sizeof_header L0 \<and> heap L0 s_two = (0x10000, s_two)
   \<and> wf_blocks L0 [(0x10000, 100), (0x100E8, 3848)]
   \<and> list_seg (mem s_two) 0x10000 [(0x10000, 100), (0x100E8, 3848)] 0
   \<and> unat (50 :: 64 word) + unat (sizeof_header L0) \<le> unat (100 :: 64 word)
   \<and> (\<exists>q s2 s3 n0 n1.
           my_malloc L0 s_two 50 = Some (Inr (q, s2)) \<and> my_free L0 s2 q = Some (Inr s3)
         \<and> available_memory L0 s_two = Some (n0, s_two) \<and> available_memory L0 s3 = Some (n1, s3)
         \<and> n0 \<le> n1)"
proof -
  have 1: "layout_ok L0" by (simp add: layout_ok_def L0_def)
  have 2: "sizeof_node L0 = sizeof_header L0" by (simp add: L0_def)
  have 3: "heap L0 s_two = (0x10000, s_two)" by (simp add: heap_def s_two_def)
  have 4: "wf_blocks L0 [(0x10000, 100), (0x100E8, 3848)]"
    by (simp add: block_hi_def block_lo_def apart_def L0_def)
  have 5: "list_seg (mem s_two) 0x10000 [(0x10000, 100), (0x100E8, 3848)] 0"
    by (simp add: s_two_def mem_two_fields)
  have 6: "\<forall>b\<in>set ([] :: block list). \<not> fits L0 (snd b) 50" by simp
  have 7: "unat (50 :: 64 word) + unat (sizeof_header L0) \<le> unat (100 :: 64 word)"
    by (simp add: L0_def)
  have w4: "wf_blocks L0 ([] @ (0x10000, 100) # [(0x100E8, 3848)])"
    by (simp add: block_hi_def block_lo_def apart_def L0_def)
  have w5: "list_seg (mem s_two) 0x10000 ([] @ (0x10000, 100) # [(0x100E8, 3848)]) 0"
    by (simp add: s_two_def mem_two_fields)
  from malloc_free_available [OF 1 2 3 w4 w5 6 7]
  have "\<exists>q s2 s3 n0 n1.
           my_malloc L0 s_two 50 = Some (Inr (q, s2)) \<and> my_free L0 s2 q = Some (Inr s3)
         \<and> available_memory L0 s_two = Some (n0, s_two) \<and> available_memory L0 s3 = Some (n1, s3)
         \<and> n0 \<le> n1"
    by simp blast
  with 1 2 3 4 5 7 show ?thesis by blast
qed

text \<open>
  C8, as stated, fails: in \<open>s_two\<close>, \<^verbatim>\<open>available_memory()\<close> is 3948; \<^verbatim>\<open>my_malloc(200)\<close> takes the
  second block of the free list and \<^verbatim>\<open>my_free\<close> of the pointer puts the block in front of the
  list, where it has no neighbour to merge with; \<^verbatim>\<open>available_memory()\<close> is then 3932: the 16
  bytes of the descriptor of the remainder are lost.
\<close>

theorem malloc_free_available_counterexample:
  "available_memory L0 s_two = Some (3948, s_two)
   \<and> my_malloc L0 s_two 200 = Some (Inr (0x100F8, s_alloc))
   \<and> my_free L0 s_alloc 0x100F8 = Some (Inr s_freed)
   \<and> available_memory L0 s_freed = Some (3932, s_freed)"
proof -
  have h: "heap L0 s_two = (0x10000, s_two)"
    by (simp add: heap_def s_two_def)
  have l: "list_seg (mem s_two) 0x10000 [(0x10000, 100), (0x100E8, 3848)] 0"
    by (simp add: s_two_def mem_two_fields)
  have 1: "available_memory L0 s_two = Some (3948, s_two)"
    using available_loop_sum [OF l, of 0] by (simp add: available_memory_def h)
  have pre: "list_seg (mem s_two) 0x10000 [(0x10000, 100)] 0x100E8"
    by (simp add: s_two_def mem_two_fields)
  have "fits L0 (get_size (mem s_two) 0x100E8) 200" "\<forall>b\<in>set [(0x10000 :: addr, 100 :: 64 word)]. \<not> fits L0 (snd b) 200"
    by (simp_all add: s_two_def mem_two_fields fits_def L0_def)
  from find_loop_found [OF pre _ this, of 0]
  have f: "find_free L0 s_two 200 (0, 0) = Some ((0x100E8, 0x10000), s_two)"
    by (simp add: find_free_def h)
  have sp: "split L0 s_two 200 0x10000 0x100E8 = Inr (s_alloc, 0x101C0, 0x100E8)"
    by (simp add: split_def Let_def s_two_def s_alloc_def mem_two_fields L0_def
        get_set_far far_def)
  have 2: "my_malloc L0 s_two 200 = Some (Inr (0x100F8, s_alloc))"
    by (simp add: my_malloc_def f sp) (simp add: L0_def)
  have a: "get_size (mem s_alloc) 0x100E8 = 200" "get_magic (mem s_alloc) 0x100E8 = 1234567"
    "get_size (mem s_alloc) 0x10000 = 100" "get_next (mem s_alloc) 0x10000 = 0x101C0"
    "get_size (mem s_alloc) 0x101C0 = 3632" "get_next (mem s_alloc) 0x101C0 = 0"
    by (simp_all add: s_alloc_def set_magic_eq get_magic_eq get_set_far far_def mem_two_fields)
  have b: "get_size (mem s_freed) 0x100E8 = 200" "get_next (mem s_freed) 0x100E8 = 0x10000"
    "get_size (mem s_freed) 0x10000 = 100" "get_next (mem s_freed) 0x10000 = 0x101C0"
    "get_size (mem s_freed) 0x101C0 = 3632" "get_next (mem s_freed) 0x101C0 = 0"
    by (simp_all add: s_freed_def get_set_far far_def a)
  have c: "coalesce L0 (mem s_freed) 0x100E8 = Some (mem s_freed)"
    by (subst coalesce.simps, simp add: b L0_def Let_def,
        subst coalesce.simps, simp add: b L0_def Let_def,
        subst coalesce.simps, simp add: b L0_def Let_def)
  have 3: "my_free L0 s_alloc 0x100F8 = Some (Inr s_freed)"
  proof -
    have "0x100F8 - sizeof_header L0 = 0x100E8" "MAGIC L0 = 1234567" by (simp_all add: L0_def)
    moreover have "set_next (set_size (mem s_alloc) 0x100E8 200) 0x100E8 (head s_alloc) = mem s_freed"
      by (simp add: s_freed_def) (simp add: s_alloc_def)
    ultimately show ?thesis
      by (simp add: my_free_def Let_def a c) (simp add: s_freed_def s_alloc_def)
  qed
  have h': "heap L0 s_freed = (0x100E8, s_freed)"
    by (simp add: heap_def s_freed_def)
  have l': "list_seg (mem s_freed) 0x100E8 [(0x100E8, 200), (0x10000, 100), (0x101C0, 3632)] 0"
    by (simp add: b)
  have 4: "available_memory L0 s_freed = Some (3932, s_freed)"
    using available_loop_sum [OF l', of 0] by (simp add: available_memory_def h')
  from 1 2 3 4 show ?thesis by blast
qed

text \<open>
  C9. The diagnostic operations leave the state as \<^verbatim>\<open>heap()\<close> leaves it: \<^verbatim>\<open>free_list\<close> returns
  the head and the state it was given; the two counters and the printer return, with the sum
  of the sizes, the number of nodes and the rendering of the free list, in the state that
  \<^verbatim>\<open>heap()\<close> returns, which is the state they were given whenever the head is not
  \<^verbatim>\<open>NULL\<close>.
\<close>

theorem diagnostics_preserve_state:
  assumes "heap L s = (p, s')" and "list_seg (mem s') p bs 0"
  shows "free_list s = (head s, s)
    \<and> available_memory L s = Some (sum_list (map snd bs), s')
    \<and> number_of_free_nodes L s = Some (of_nat (length bs), s')
    \<and> print_free_list L s = Some (render_list bs @ [CHR 0x0A], s')
    \<and> (head s \<noteq> 0 \<longrightarrow> s' = s)"
  using assms(1) available_loop_sum [OF assms(2), of 0] count_loop_length [OF assms(2), of 0]
    print_loop_render [OF assms(2), of "[]"]
  by (auto simp add: free_list_def available_memory_def number_of_free_nodes_def
      print_free_list_def heap_def split: if_splits)

theorem diagnostics_preserve_state_witness:
  "heap L0 s_two = (0x10000, s_two)
   \<and> list_seg (mem s_two) 0x10000 [(0x10000, 100), (0x100E8, 3848)] 0
   \<and> free_list s_two = (head s_two, s_two)
   \<and> available_memory L0 s_two = Some (3948, s_two)
   \<and> number_of_free_nodes L0 s_two = Some (2, s_two)
   \<and> print_free_list L0 s_two = Some (''Free(100)->Free(3848)'' @ [CHR 0x0A], s_two)"
proof -
  have 1: "heap L0 s_two = (0x10000, s_two)"
    by (simp add: heap_def s_two_def)
  have 2: "list_seg (mem s_two) 0x10000 [(0x10000, 100), (0x100E8, 3848)] 0"
    by (simp add: s_two_def mem_two_fields)
  have 3: "show_zd 100 = ''100''" "show_zd 3848 = ''3848''"
    by (simp_all add: show_zd_def digit_char_def)
  from diagnostics_preserve_state [OF 1 2] 3
  have "free_list s_two = (head s_two, s_two)
    \<and> available_memory L0 s_two = Some (3948, s_two)
    \<and> number_of_free_nodes L0 s_two = Some (2, s_two)
    \<and> print_free_list L0 s_two = Some (''Free(100)->Free(3848)'' @ [CHR 0x0A], s_two)"
    by simp
  with 1 2 show ?thesis by blast
qed

text \<open>
  C10. \<^verbatim>\<open>reset_heap\<close> on a heap that was never initialised (\<^verbatim>\<open>head\<close> is \<^verbatim>\<open>NULL\<close>) changes
  nothing: no call to the operating system, \<^verbatim>\<open>head\<close> stays \<^verbatim>\<open>NULL\<close> and \<^verbatim>\<open>free_list\<close> returns
  \<^verbatim>\<open>NULL\<close>. With a head that is not \<^verbatim>\<open>NULL\<close> it calls \<^verbatim>\<open>munmap\<close> at the head, clears the head and
  lets \<^verbatim>\<open>heap()\<close> map the arena again, so that the free list is the single block spanning it.
\<close>

theorem reset_heap_only_when_initialised:
  "(head s = 0 \<longrightarrow> reset_heap L s = s \<and> fst (free_list (reset_heap L s)) = 0)
   \<and> (head s \<noteq> 0 \<longrightarrow>
        os (reset_heap L s) = os s @ [Munmap (head s), Mmap (mmap_addr L)]
        \<and> head (reset_heap L s) = mmap_addr L
        \<and> get_size (mem (reset_heap L s)) (mmap_addr L) = HEAP_SIZE L - sizeof_node L
        \<and> get_next (mem (reset_heap L s)) (mmap_addr L) = 0)"
  by (simp add: reset_heap_def free_list_def heap_def Let_def)

theorem reset_heap_only_when_initialised_witness:
  "head s_uninit = 0 \<and> reset_heap L0 s_uninit = s_uninit
   \<and> fst (free_list (reset_heap L0 s_uninit)) = 0
   \<and> head s_two \<noteq> 0
   \<and> os (reset_heap L0 s_two) = [Mmap 0x10000, Munmap 0x10000, Mmap 0x10000]
   \<and> head (reset_heap L0 s_two) = 0x10000
   \<and> get_size (mem (reset_heap L0 s_two)) 0x10000 = 4080
   \<and> get_next (mem (reset_heap L0 s_two)) 0x10000 = 0"
proof -
  have 1: "head s_uninit = 0" by (simp add: s_uninit_def)
  have 2: "head s_two \<noteq> 0" by (simp add: s_two_def)
  have 3: "os s_two = [Mmap 0x10000]" "head s_two = 0x10000" by (simp_all add: s_two_def)
  have 4: "mmap_addr L0 = 0x10000" "HEAP_SIZE L0 - sizeof_node L0 = 4080" by (simp_all add: L0_def)
  from reset_heap_only_when_initialised [of s_uninit L0]
    reset_heap_only_when_initialised [of s_two L0] 1 2
  show ?thesis unfolding 3 4 by (simp add: free_list_def)
qed

end
